theory Spec2Isabelle
  imports Main "HOL-Library.Sublist"
begin

section \<open>MongoCopy: the service (src/copyService.js) and its command line (src/index.js)\<close>

text \<open>
  The program talks to two document stores, the file system, a prompt and a logger.
  The model makes each of them explicit.
  \<^item> The environment \<open>env\<close> holds what the program only reads: the collections of the
    source store, the user's replies, which external calls raise, and the platform's JSON
    codec (\<open>JSON.stringify\<close>, \<open>JSON.parse\<close>).
  \<^item> The world \<open>world\<close> holds what the program changes: the destination store, the files,
    the directories, and the trace of every external call in the order it was made.
  \<^item> An \<open>await\<close>ed call that rejects is a value \<open>Inl e\<close>; a function returns its result
    together with the world it leaves behind.
  Documents are an arbitrary type \<open>'d\<close>. The source and the destination are taken to be
  different stores, and \<open>initClients\<close> is taken to have run before \<open>copyCollections\<close>.

  What lies outside the two files is modelled as follows.
  \<^item> \<open>fails env c\<close> says that the external call \<open>c\<close> raises; a call that raises is
    recorded in the trace and changes neither the stores nor the files.
  \<^item> \<open>parse env s = None\<close> says that \<open>JSON.parse\<close> raises on \<open>s\<close>; a text that parses is
    taken to be an array of documents.
  \<^item> The spinner and the logger never raise; their calls are recorded in the trace with
    the data of the message instead of its text.
  \<^item> A run that never ends is the value \<open>None\<close>.
  \<^item> The \<open>--log-path\<close> option of the command line only redirects the log and is left out.
\<close>

subsection \<open>Data\<close>

type_synonym name = string
type_synonym path = string

datatype store = Source | Destination

datatype error =
    ConnectionError | EnumerationError | BatchReadError | InsertError | FileIOError
  | PromptError | ModuleLoadError

datatype level = Info | Warn | Err | Success

datatype msg =
    Cancelled
  | DryRunWouldCopy name
  | ErrorMessage error
  | Finished name nat
  | FileNotFound path
  | Imported nat name
  | MissingEnvVars
  | UsageHint
  | ExportImportTogether
  | ConfirmationSkipped
  | OperationFinished
  | OperationFailed error

datatype spin =
    SpinStart | SpinProcessing name | SpinProgress name nat nat | SpinSucceed | SpinFail

datatype prompt =
    ConfirmCopy "name list"
  | ConfirmOperate bool "name list" bool

text \<open>One constructor per external call the two files make.\<close>

datatype 'd call =
    DbConnect store
  | DbClose store
  | DbListCollections
  | DbCollection store name
  | DbCountDocuments name
  | DbFind name
  | DbReadBatch name "'d list"
  | DbInsertMany name "'d list"
  | FsExists path
  | FsMkdir path
  | FsAppend path string
  | FsRead path
  | Ask prompt
  | Spinner spin
  | Log level msg
  | Help
  | LoadModule

record 'd env =
  source :: "(name \<times> 'd list) list"
  fails :: "'d call \<Rightarrow> bool"
  reply :: "prompt \<Rightarrow> bool"
  stringify :: "'d list \<Rightarrow> string"
  parse :: "string \<Rightarrow> 'd list option"

record 'd world =
  dest :: "name \<Rightarrow> 'd list"
  files :: "path \<Rightarrow> string option"
  dirs :: "path set"
  trace :: "'d call list"

text \<open>
  The value of a numeric option as JavaScript sees it: absent, \<open>NaN\<close> (what \<open>parseInt\<close>
  gives for a non-number) or an integer. Fractions and infinities are left out.
\<close>

datatype jsnum = Undefined | NaN | Num int

record options =
  opt_collections :: "name list option"
  opt_batchSize :: jsnum
  opt_dryRun :: "bool option"
  opt_yes :: "bool option"
  opt_exportJson :: "bool option"
  opt_importJson :: "bool option"
  opt_outputDir :: "string option"

record service =
  collections :: "name list"
  batchSize :: int
  dryRun :: bool
  yes :: bool
  exportJson :: bool
  importJson :: bool
  outputDir :: string

subsection \<open>The constructor (copyService.js, lines 12-22)\<close>

text \<open>\<open>x || d\<close>: the default \<open>d\<close> replaces every falsy \<open>x\<close>.\<close>

fun falsy :: "jsnum \<Rightarrow> bool" where
  "falsy Undefined = True"
| "falsy NaN = True"
| "falsy (Num n) = (n = 0)"

fun num_or :: "jsnum \<Rightarrow> int \<Rightarrow> int" where
  "num_or (Num n) d = (if n = 0 then d else n)"
| "num_or Undefined d = d"
| "num_or NaN d = d"

fun bool_or :: "bool option \<Rightarrow> bool \<Rightarrow> bool" where
  "bool_or None d = d"
| "bool_or (Some b) d = (if b then b else d)"

fun list_or :: "'a list option \<Rightarrow> 'a list \<Rightarrow> 'a list" where
  "list_or None d = d"
| "list_or (Some xs) d = xs"

fun string_or :: "string option \<Rightarrow> string \<Rightarrow> string" where
  "string_or None d = d"
| "string_or (Some s) d = (if s = [] then d else s)"

definition MongoCopyService :: "options \<Rightarrow> service" where
  "MongoCopyService opts =
     \<lparr> collections = list_or (opt_collections opts) [],
       batchSize = num_or (opt_batchSize opts) 1000,
       dryRun = bool_or (opt_dryRun opts) False,
       yes = bool_or (opt_yes opts) False,
       exportJson = bool_or (opt_exportJson opts) False,
       importJson = bool_or (opt_importJson opts) False,
       outputDir = string_or (opt_outputDir opts) ''./backup'' \<rparr>"

subsection \<open>Connections (lines 24-38)\<close>

definition emit :: "'d call \<Rightarrow> 'd world \<Rightarrow> 'd world" where
  "emit c w = w\<lparr>trace := trace w @ [c]\<rparr>"

definition initClients :: "'d env \<Rightarrow> 'd world \<Rightarrow> (error + unit) \<times> 'd world" where
  "initClients env w =
     (let w1 = emit (DbConnect Source) w in
      if fails env (DbConnect Source) then (Inl ConnectionError, w1)
      else let w2 = emit (DbConnect Destination) w1 in
        if fails env (DbConnect Destination) then (Inl ConnectionError, w2)
        else (Inr (), w2))"

text \<open>\<open>Promise.allSettled\<close>: both handles are closed, and a failing close is swallowed.\<close>

definition closeClients :: "'d world \<Rightarrow> 'd world" where
  "closeClients w = emit (DbClose Destination) (emit (DbClose Source) w)"

subsection \<open>Enumeration (lines 40-46)\<close>

definition listCollections ::
  "'d env \<Rightarrow> service \<Rightarrow> 'd world \<Rightarrow> (error + name list) \<times> service \<times> 'd world" where
  "listCollections env svc w =
     (let w1 = emit DbListCollections w in
      if fails env DbListCollections then (Inl EnumerationError, svc, w1)
      else
        let names = map fst (source env);
            plan = (if length (collections svc) = 0 then names
                    else filter (\<lambda>c. c \<in> set names) (collections svc))
        in (Inr plan, svc\<lparr>collections := plan\<rparr>, w1))"

subsection \<open>The three sinks (lines 94-100, 109-127)\<close>

text \<open>
  \<open>path.join(dir, `${name}.json`)\<close>. Export resolves \<open>outputDir\<close> against the working
  directory first and import does not; both name the same file, and the model writes the
  path the same way for both.
\<close>

definition file_path :: "path \<Rightarrow> name \<Rightarrow> path" where
  "file_path dir name = dir @ ''/'' @ name @ ''.json''"

definition append_file :: "path \<Rightarrow> string \<Rightarrow> (path \<Rightarrow> string option) \<Rightarrow> (path \<Rightarrow> string option)" where
  "append_file p s fs = fs(p \<mapsto> (case fs p of None \<Rightarrow> s | Some old \<Rightarrow> old @ s))"

definition insertMany :: "'d env \<Rightarrow> name \<Rightarrow> 'd list \<Rightarrow> 'd world \<Rightarrow> (error + unit) \<times> 'd world" where
  "insertMany env name docs w =
     (let w1 = emit (DbInsertMany name docs) w in
      if fails env (DbInsertMany name docs) then (Inl InsertError, w1)
      else (Inr (), w1\<lparr>dest := (dest w1)(name := dest w1 name @ docs)\<rparr>))"

definition exportBatchToJson ::
  "'d env \<Rightarrow> service \<Rightarrow> 'd list \<Rightarrow> name \<Rightarrow> 'd world \<Rightarrow> (error + unit) \<times> 'd world" where
  "exportBatchToJson env svc batch name w =
     (let dir = outputDir svc;
          w1 = emit (FsExists dir) w in
      if dir \<notin> dirs w1 \<and> fails env (FsMkdir dir) then (Inl FileIOError, emit (FsMkdir dir) w1)
      else
        let w2 = (if dir \<notin> dirs w1 then (emit (FsMkdir dir) w1)\<lparr>dirs := insert dir (dirs w1)\<rparr>
                  else w1);
            filePath = file_path dir name;
            text = stringify env batch;
            w3 = emit (FsAppend filePath text) w2 in
        if fails env (FsAppend filePath text) then (Inl FileIOError, w3)
        else (Inr (), w3\<lparr>files := append_file filePath text (files w3)\<rparr>))"

definition importBatchFromJson ::
  "'d env \<Rightarrow> service \<Rightarrow> name \<Rightarrow> 'd world \<Rightarrow> (error + unit) \<times> 'd world" where
  "importBatchFromJson env svc name w =
     (let filePath = file_path (outputDir svc) name;
          w1 = emit (FsExists filePath) w in
      case files w1 filePath of
        None \<Rightarrow> (Inr (), emit (Log Warn (FileNotFound filePath)) w1)
      | Some content \<Rightarrow>
          let w2 = emit (FsRead filePath) w1 in
          if fails env (FsRead filePath) then (Inl FileIOError, w2)
          else (case parse env content of
                  None \<Rightarrow> (Inl FileIOError, w2)
                | Some json \<Rightarrow>
                    (case insertMany env name json (emit (DbCollection Destination name) w2) of
                       (Inl e, w3) \<Rightarrow> (Inl e, w3)
                     | (Inr u, w3) \<Rightarrow>
                         (Inr (), emit (Log Success (Imported (length json) name)) w3))))"

definition sink ::
  "'d env \<Rightarrow> service \<Rightarrow> name \<Rightarrow> 'd list \<Rightarrow> 'd world \<Rightarrow> (error + unit) \<times> 'd world" where
  "sink env svc name batch w =
     (if exportJson svc then exportBatchToJson env svc batch name w
      else if importJson svc then importBatchFromJson env svc name w
      else insertMany env name batch w)"

subsection \<open>Streaming one collection (lines 83-107)\<close>

text \<open>
  The cursor is the list of documents not read yet; \<open>hasNext\<close> asks whether it is empty
  and \<open>next\<close> takes its head. A collection the source does not have is empty.
\<close>

definition docs_of :: "'d env \<Rightarrow> name \<Rightarrow> 'd list" where
  "docs_of env name = (case map_of (source env) name of None \<Rightarrow> [] | Some ds \<Rightarrow> ds)"

text \<open>The inner \<open>for\<close> loop of lines 90-92, with its counter \<open>i\<close>.\<close>

function read_batch :: "int \<Rightarrow> int \<Rightarrow> 'd list \<Rightarrow> 'd list \<Rightarrow> 'd list \<times> 'd list" where
  "read_batch i b cursor batch =
     (if i < b \<and> cursor \<noteq> [] then read_batch (i + 1) b (tl cursor) (batch @ [hd cursor])
      else (batch, cursor))"
  by pat_completeness auto
termination
  by (relation "measure (\<lambda>(i, b, cursor, batch). length cursor)") auto

declare read_batch.simps [simp del]

text \<open>
  What one turn of the \<open>while\<close> loop does once the inner loop has built its batch: the
  reads of lines 88-92 are recorded as one call, which may raise; then (lines 94-103) the
  batch goes to the sink, its length is added to \<open>processed\<close>, and progress is reported.
\<close>

definition batch_step ::
  "'d env \<Rightarrow> service \<Rightarrow> name \<Rightarrow> nat \<Rightarrow> 'd list \<Rightarrow> nat \<Rightarrow> 'd world
     \<Rightarrow> (error + nat) \<times> 'd world" where
  "batch_step env svc name totalDocs batch processed w =
     (let w1 = emit (DbReadBatch name batch) w in
      if fails env (DbReadBatch name batch) then (Inl BatchReadError, w1)
      else (case sink env svc name batch w1 of
              (Inl e, w2) \<Rightarrow> (Inl e, w2)
            | (Inr u, w2) \<Rightarrow>
                let processed' = processed + length batch in
                (Inr processed', emit (Spinner (SpinProgress name processed' totalDocs)) w2)))"

text \<open>
  One turn of the \<open>while\<close> loop. The result is the error that ends the loop, or the
  cursor, the counter and the world the next turn starts from.
\<close>

definition copy_step ::
  "'d env \<Rightarrow> service \<Rightarrow> name \<Rightarrow> nat \<Rightarrow> 'd list \<Rightarrow> nat \<Rightarrow> 'd world
     \<Rightarrow> (error + 'd list \<times> nat) \<times> 'd world" where
  "copy_step env svc name totalDocs cursor processed w =
     (let (batch, cursor') = read_batch 0 (batchSize svc) cursor [] in
      case batch_step env svc name totalDocs batch processed w of
        (Inl e, w') \<Rightarrow> (Inl e, w')
      | (Inr processed', w') \<Rightarrow> (Inr (cursor', processed'), w'))"

partial_function (option) copy_loop ::
  "'d env \<Rightarrow> service \<Rightarrow> name \<Rightarrow> nat \<Rightarrow> 'd list \<Rightarrow> nat \<Rightarrow> 'd world
     \<Rightarrow> ((error + unit) \<times> 'd world) option" where
  "copy_loop env svc name totalDocs cursor processed w =
     (if cursor = [] then Some (Inr (), w)
      else (case copy_step env svc name totalDocs cursor processed w of
              (Inl e, w') \<Rightarrow> Some (Inl e, w')
            | (Inr (cursor', processed'), w') \<Rightarrow>
                copy_loop env svc name totalDocs cursor' processed' w'))"

declare copy_loop.simps [code]

definition copyCollection ::
  "'d env \<Rightarrow> service \<Rightarrow> name \<Rightarrow> 'd world \<Rightarrow> ((error + unit) \<times> 'd world) option" where
  "copyCollection env svc name w =
     (let w1 = emit (DbCountDocuments name) w in
      if fails env (DbCountDocuments name) then Some (Inl BatchReadError, w1)
      else
        let totalDocs = length (docs_of env name);
            w2 = emit (DbFind name) w1 in
        (case copy_loop env svc name totalDocs (docs_of env name) 0 w2 of
           None \<Rightarrow> None
         | Some (Inl e, w3) \<Rightarrow> Some (Inl e, w3)
         | Some (Inr u, w3) \<Rightarrow> Some (Inr (), emit (Log Success (Finished name totalDocs)) w3)))"

subsection \<open>The job (lines 48-81)\<close>

text \<open>Lines 62-64: the spinner text and the two collection handles.\<close>

definition open_collection :: "name \<Rightarrow> 'd world \<Rightarrow> 'd world" where
  "open_collection name w =
     emit (DbCollection Destination name)
       (emit (DbCollection Source name)
         (emit (Spinner (SpinProcessing name)) w))"

text \<open>The \<open>for\<close> loop inside \<open>try\<close>, over the rest of the plan.\<close>

fun process_all ::
  "'d env \<Rightarrow> service \<Rightarrow> name list \<Rightarrow> 'd world \<Rightarrow> ((error + unit) \<times> 'd world) option" where
  "process_all env svc [] w = Some (Inr (), w)"
| "process_all env svc (name # rest) w =
     (let w1 = open_collection name w in
      if dryRun svc then process_all env svc rest (emit (Log Info (DryRunWouldCopy name)) w1)
      else (case copyCollection env svc name w1 of
              None \<Rightarrow> None
            | Some (Inl e, w2) \<Rightarrow> Some (Inl e, w2)
            | Some (Inr u, w2) \<Rightarrow> process_all env svc rest w2))"

text \<open>\<open>try { for ... } catch { ... } finally { closeClients }\<close>, lines 60-80.\<close>

definition try_copy :: "'d env \<Rightarrow> service \<Rightarrow> name list \<Rightarrow> 'd world \<Rightarrow> 'd world option" where
  "try_copy env svc plan w =
     (case process_all env svc plan w of
        None \<Rightarrow> None
      | Some (Inr u, w1) \<Rightarrow> Some (closeClients (emit (Spinner SpinSucceed) w1))
      | Some (Inl e, w1) \<Rightarrow>
          Some (closeClients (emit (Log Err (ErrorMessage e)) (emit (Spinner SpinFail) w1))))"

text \<open>
  How \<open>copyCollections\<close> ends: its promise resolves (\<open>Returned\<close>) or rejects (\<open>Threw\<close>).
  \<open>None\<close> is a run that never ends.
\<close>

datatype outcome = Returned | Threw error

text \<open>
  Lines 51-56: without \<open>yes\<close> the user is asked; the result is the user's answer, and
  \<open>True\<close> when nobody is asked.
\<close>

definition ask_confirm ::
  "'d env \<Rightarrow> service \<Rightarrow> name list \<Rightarrow> 'd world \<Rightarrow> (error + bool) \<times> 'd world" where
  "ask_confirm env svc plan w =
     (if yes svc then (Inr True, w)
      else
        let w1 = emit (Ask (ConfirmCopy plan)) w in
        if fails env (Ask (ConfirmCopy plan)) then (Inl PromptError, w1)
        else (Inr (reply env (ConfirmCopy plan)), w1))"

definition copyCollections ::
  "'d env \<Rightarrow> service \<Rightarrow> 'd world \<Rightarrow> (outcome \<times> service \<times> 'd world) option" where
  "copyCollections env svc w =
     (case listCollections env svc w of
        (Inl e, svc1, w1) \<Rightarrow> Some (Threw e, svc1, w1)
      | (Inr plan, svc1, w1) \<Rightarrow>
          (case ask_confirm env svc1 plan w1 of
             (Inl e, w2) \<Rightarrow> Some (Threw e, svc1, w2)
           | (Inr ok, w2) \<Rightarrow>
               if \<not> ok then Some (Returned, svc1, emit (Log Warn Cancelled) w2)
               else (case try_copy env svc1 plan (emit (Spinner SpinStart) w2) of
                       None \<Rightarrow> None
                     | Some w3 \<Rightarrow> Some (Returned, svc1, w3))))"

subsection \<open>The command line (index.js, lines 46-52 and 66-184)\<close>

record cli =
  cli_all :: bool
  cli_collections :: "string option"
  cli_dryRun :: bool
  cli_batchSize :: jsnum
  cli_yes :: bool
  cli_exportJson :: bool
  cli_importJson :: bool
  cli_outputDir :: "string option"

record penv =
  has_SOURCE_DB_URI :: bool
  has_TARGET_DB_URI :: bool
  has_DB_NAME :: bool
  env_BATCH_SIZE :: jsnum

fun split_on :: "char \<Rightarrow> string \<Rightarrow> string list" where
  "split_on c [] = [[]]"
| "split_on c (x # xs) =
     (if x = c then [] # split_on c xs
      else (case split_on c xs of [] \<Rightarrow> [[x]] | y # ys \<Rightarrow> (x # y) # ys))"

definition is_space :: "char \<Rightarrow> bool" where
  "is_space c = (c \<in> set [CHR '' '', CHR 0x09, CHR 0x0A, CHR 0x0B, CHR 0x0C, CHR 0x0D])"

definition trim :: "string \<Rightarrow> string" where
  "trim s = rev (dropWhile is_space (rev (dropWhile is_space s)))"

definition normalizeCollections :: "string option \<Rightarrow> name list" where
  "normalizeCollections raw =
     (case raw of
        None \<Rightarrow> []
      | Some r \<Rightarrow> if r = [] then [] else filter (\<lambda>s. s \<noteq> []) (map trim (split_on CHR '','' r)))"

fun is_finite :: "jsnum \<Rightarrow> bool" where
  "is_finite (Num n) = True"
| "is_finite Undefined = False"
| "is_finite NaN = False"

fun num_of :: "jsnum \<Rightarrow> int" where
  "num_of (Num n) = n"
| "num_of Undefined = 0"
| "num_of NaN = 0"

definition cli_batch :: "cli \<Rightarrow> penv \<Rightarrow> int" where
  "cli_batch opts pe =
     (if is_finite (cli_batchSize opts) \<and> 0 < num_of (cli_batchSize opts)
        then num_of (cli_batchSize opts)
      else if is_finite (env_BATCH_SIZE pe) then num_of (env_BATCH_SIZE pe)
      else 1000)"

definition cli_options :: "cli \<Rightarrow> penv \<Rightarrow> options" where
  "cli_options opts pe =
     \<lparr> opt_collections = Some (normalizeCollections (cli_collections opts)),
       opt_batchSize = Num (cli_batch opts pe),
       opt_dryRun = Some (cli_dryRun opts),
       opt_yes = Some (cli_yes opts),
       opt_exportJson = Some (cli_exportJson opts),
       opt_importJson = Some (cli_importJson opts),
       opt_outputDir = Some (string_or (cli_outputDir opts) ''./backup'') \<rparr>"

text \<open>
  Lines 145-183 with the module that copyService.js is: it exports the class
  \<open>MongoCopyService\<close> and neither a default export nor \<open>run\<close>, so the second branch runs.
\<close>

definition run_service :: "'d env \<Rightarrow> options \<Rightarrow> 'd world \<Rightarrow> (nat \<times> 'd world) option" where
  "run_service env options w =
     (let svc = MongoCopyService options in
      case initClients env w of
        (Inl e, w1) \<Rightarrow> Some (1, emit (Log Err (OperationFailed e)) w1)
      | (Inr u, w1) \<Rightarrow>
          (case copyCollections env svc w1 of
             None \<Rightarrow> None
           | Some (Threw e, svc1, w2) \<Rightarrow> Some (1, emit (Log Err (OperationFailed e)) w2)
           | Some (Returned, svc1, w2) \<Rightarrow>
               Some (0, emit (Log Success OperationFinished) (closeClients w2))))"

text \<open>The result is the exit code of the process and the world it leaves.\<close>

definition main :: "'d env \<Rightarrow> penv \<Rightarrow> cli \<Rightarrow> 'd world \<Rightarrow> (nat \<times> 'd world) option" where
  "main env pe opts w =
     (if \<not> has_SOURCE_DB_URI pe \<or> \<not> has_TARGET_DB_URI pe \<or> \<not> has_DB_NAME pe
        then Some (1, emit (Log Err MissingEnvVars) w)
      else
        let all = cli_all opts;
            colls = normalizeCollections (cli_collections opts);
            question = ConfirmOperate all colls (cli_dryRun opts) in
        if \<not> all \<and> length colls = 0 \<and> \<not> cli_exportJson opts \<and> \<not> cli_importJson opts
          then Some (0, emit Help (emit (Log Info UsageHint) w))
        else if cli_exportJson opts \<and> cli_importJson opts
          then Some (1, emit (Log Err ExportImportTogether) w)
        else if \<not> cli_yes opts \<and> fails env (Ask question)
          then Some (1, emit (Ask question) w)
        else if \<not> cli_yes opts \<and> \<not> reply env question
          then Some (0, emit (Log Warn Cancelled) (emit (Ask question) w))
        else
          let w1 = (if \<not> cli_yes opts then emit (Ask question) w
                    else emit (Log Info ConfirmationSkipped) w);
              w2 = emit LoadModule w1 in
          if fails env LoadModule then Some (1, emit (Log Err (ErrorMessage ModuleLoadError)) w2)
          else run_service env (cli_options opts pe) w2)"

subsection \<open>Auxiliary notions for the properties\<close>

text \<open>The documents of a cursor cut into pages of \<open>b\<close>.\<close>

function chunks :: "nat \<Rightarrow> 'a list \<Rightarrow> 'a list list" where
  "chunks b xs = (if b = 0 \<or> xs = [] then [] else take b xs # chunks b (drop b xs))"
  by pat_completeness auto
termination
  by (relation "measure (\<lambda>(b, xs). length xs)") auto

declare chunks.simps [simp del]

text \<open>The turns of the \<open>while\<close> loop over a given list of batches, up to the first error.\<close>

fun run_batches ::
  "'d env \<Rightarrow> service \<Rightarrow> name \<Rightarrow> nat \<Rightarrow> 'd list list \<Rightarrow> nat \<Rightarrow> 'd world
     \<Rightarrow> (error + unit) \<times> 'd world" where
  "run_batches env svc name totalDocs [] processed w = (Inr (), w)"
| "run_batches env svc name totalDocs (batch # rest) processed w =
     (case batch_step env svc name totalDocs batch processed w of
        (Inl e, w') \<Rightarrow> (Inl e, w')
      | (Inr processed', w') \<Rightarrow> run_batches env svc name totalDocs rest processed' w')"

text \<open>Projections of a trace.\<close>

definition closes :: "'d call list \<Rightarrow> nat" where
  "closes t = length (filter (\<lambda>c. c = DbClose Source) t)"

fun batch_of :: "'d call \<Rightarrow> 'd list list" where
  "batch_of (DbReadBatch n b) = [b]"
| "batch_of c = []"

definition batches :: "'d call list \<Rightarrow> 'd list list" where
  "batches t = concat (map batch_of t)"


text \<open>
  Kinds of calls: a write to the destination store, a call to the file system, and an
  operation on the documents of a collection (as opposed to opening its handle).
\<close>

fun store_write :: "'d call \<Rightarrow> bool" where
  "store_write (DbInsertMany n b) = True"
| "store_write c = False"

fun file_call :: "'d call \<Rightarrow> bool" where
  "file_call (FsExists p) = True"
| "file_call (FsMkdir p) = True"
| "file_call (FsAppend p s) = True"
| "file_call (FsRead p) = True"
| "file_call c = False"

fun document_call :: "'d call \<Rightarrow> bool" where
  "document_call (DbCountDocuments n) = True"
| "document_call (DbFind n) = True"
| "document_call (DbReadBatch n b) = True"
| "document_call (DbInsertMany n b) = True"
| "document_call c = False"

text \<open>What a run added to the trace it started from.\<close>

definition added :: "'d world \<Rightarrow> 'd world \<Rightarrow> 'd call list" where
  "added w w' = drop (length (trace w)) (trace w')"

text \<open>The calls a sink may make for the collection \<open>name\<close>.\<close>

fun sink_call :: "name \<Rightarrow> 'd call \<Rightarrow> bool" where
  "sink_call name (DbInsertMany n b) = (n = name)"
| "sink_call name (DbCollection s n) = (s = Destination \<and> n = name)"
| "sink_call name (FsExists p) = True"
| "sink_call name (FsMkdir p) = True"
| "sink_call name (FsAppend p t) = True"
| "sink_call name (FsRead p) = True"
| "sink_call name (Log l m) = True"
| "sink_call name c = False"

text \<open>
  \<open>within S c\<close>: the call \<open>c\<close> is one that processing the collections \<open>S\<close> may make. It is
  not a connect, a close or a listing, and if it names a collection, that one is in \<open>S\<close>.
  \<open>grows P w w'\<close>: the world \<open>w'\<close> has the trace of \<open>w\<close> followed by calls that satisfy \<open>P\<close>.
\<close>

fun within :: "name set \<Rightarrow> 'd call \<Rightarrow> bool" where
  "within S (DbConnect s) = False"
| "within S (DbClose s) = False"
| "within S DbListCollections = False"
| "within S (DbCollection s n) = (n \<in> S)"
| "within S (DbCountDocuments n) = (n \<in> S)"
| "within S (DbFind n) = (n \<in> S)"
| "within S (DbReadBatch n b) = (n \<in> S)"
| "within S (DbInsertMany n b) = (n \<in> S)"
| "within S c = True"

definition grows :: "('d call \<Rightarrow> bool) \<Rightarrow> 'd world \<Rightarrow> 'd world \<Rightarrow> bool" where
  "grows P w w' = (\<exists>ext. trace w' = trace w @ ext \<and> list_all P ext)"

text \<open>The files a trace appended to, with the text of each append.\<close>

fun append_of :: "'d call \<Rightarrow> (path \<times> string) list" where
  "append_of (FsAppend p t) = [(p, t)]"
| "append_of c = []"

definition appends :: "'d call list \<Rightarrow> (path \<times> string) list" where
  "appends t = concat (map append_of t)"

text \<open>
  What the properties of the exported files need of the platform's JSON codec: an array
  of documents that is printed parses back to itself, and a text that starts with two
  printed arrays, one after the other, does not parse.
\<close>

definition json_codec :: "'d env \<Rightarrow> bool" where
  "json_codec env =
     ((\<forall>docs. parse env (stringify env docs) = Some docs)
      \<and> (\<forall>a b rest. parse env (stringify env a @ stringify env b @ rest) = None))"

subsection \<open>Concrete inputs\<close>

definition no_faults :: "'d call \<Rightarrow> bool" where
  "no_faults c = False"

definition says :: "bool \<Rightarrow> prompt \<Rightarrow> bool" where
  "says b p = b"

definition fresh :: "'d world" where
  "fresh = \<lparr> dest = (\<lambda>n. []), files = (\<lambda>p. None), dirs = {}, trace = [] \<rparr>"

definition plain_options :: options where
  "plain_options =
     \<lparr> opt_collections = None, opt_batchSize = Undefined, opt_dryRun = None, opt_yes = None,
       opt_exportJson = None, opt_importJson = None, opt_outputDir = None \<rparr>"

text \<open>
  A JSON codec for the concrete runs: documents are the JSON booleans, \<open>bools_stringify\<close>
  prints an array of them as \<open>JSON.stringify(batch, null, 2)\<close> does, and \<open>bools_parse\<close>
  accepts exactly the JSON texts that are arrays of booleans.
\<close>

definition lit :: "bool \<Rightarrow> string" where
  "lit b = (if b then ''true'' else ''false'')"

definition bools_stringify :: "bool list \<Rightarrow> string" where
  "bools_stringify ds =
     (case ds of
        [] \<Rightarrow> ''[]''
      | x # xs \<Rightarrow>
          CHR ''['' # CHR 0x0A # ''  '' @ lit x
            @ concat (map (\<lambda>y. CHR '','' # CHR 0x0A # ''  '' @ lit y) xs)
            @ [CHR 0x0A, CHR '']''])"

definition bools_parse :: "string \<Rightarrow> bool list option" where
  "bools_parse s =
     (let t = trim s in
      if length t < 2 \<or> hd t \<noteq> CHR ''['' \<or> last t \<noteq> CHR '']'' then None
      else
        let inner = butlast (tl t) in
        if trim inner = [] then Some []
        else
          let items = map trim (split_on CHR '','' inner) in
          if list_all (\<lambda>i. i = ''true'' \<or> i = ''false'') items
            then Some (map (\<lambda>i. i = ''true'') items)
          else None)"

definition demo :: "bool env" where
  "demo =
     \<lparr> source = [(''users'', [True, False, True]), (''posts'', [False]), (''tags'', [])],
       fails = no_faults, reply = says True,
       stringify = bools_stringify, parse = bools_parse \<rparr>"

definition plain_cli :: cli where
  "plain_cli =
     \<lparr> cli_all = True, cli_collections = None, cli_dryRun = False, cli_batchSize = Undefined,
       cli_yes = True, cli_exportJson = False, cli_importJson = False, cli_outputDir = None \<rparr>"

definition full_penv :: penv where
  "full_penv =
     \<lparr> has_SOURCE_DB_URI = True, has_TARGET_DB_URI = True, has_DB_NAME = True,
       env_BATCH_SIZE = Undefined \<rparr>"

definition stocked :: "bool world" where
  "stocked = fresh\<lparr>files := [''./backup/tags.json'' \<mapsto> bools_stringify [True, False]]\<rparr>"

text \<open>The demo environment with a destination that refuses the batch of \<open>posts\<close>.\<close>

definition broken :: "bool env" where
  "broken = demo\<lparr>fails := (\<lambda>c. c = DbInsertMany ''posts'' [False])\<rparr>"

definition eager :: service where
  "eager = MongoCopyService (plain_options\<lparr>opt_yes := Some True, opt_batchSize := Num 2\<rparr>)"

text \<open>A collection of five documents, for runs of more than two batches.\<close>

definition five :: "bool env" where
  "five = demo\<lparr>source := [(''logs'', [True, True, False, False, True])]\<rparr>"

definition importer :: service where
  "importer = MongoCopyService (plain_options\<lparr>opt_importJson := Some True, opt_batchSize := Num 2\<rparr>)"

definition exporter :: service where
  "exporter = MongoCopyService (plain_options\<lparr>opt_exportJson := Some True, opt_batchSize := Num 2\<rparr>)"

definition saved :: "bool world" where
  "saved = fresh\<lparr>files := [''./backup/logs.json'' \<mapsto> bools_stringify [True, False]]\<rparr>"

text \<open>A world in which \<open>posts\<close> has been exported once already.\<close>

definition exported_before :: "bool world" where
  "exported_before = fresh\<lparr>files := [''./backup/posts.json'' \<mapsto> bools_stringify [False]]\<rparr>"


section \<open>Properties\<close>

subsection \<open>Reading batches and the loop\<close>

lemma read_batch_take_drop:
  "read_batch i b cursor batch = (batch @ take (nat (b - i)) cursor, drop (nat (b - i)) cursor)"
proof (induction i b cursor batch rule: read_batch.induct)
  case (1 i b cursor batch)
  show ?case
  proof (cases "i < b \<and> cursor \<noteq> []")
    case True
    then obtain x xs where c: "cursor = x # xs" by (cases cursor) auto
    from True have n: "nat (b - i) = Suc (nat (b - (i + 1)))" by auto
    show ?thesis
      using "1.IH"[OF True] True
      by (subst read_batch.simps) (simp add: c n)
  next
    case False
    then show ?thesis
      by (subst read_batch.simps) auto
  qed
qed

lemma copy_step_take_drop:
  "copy_step env svc name tot cursor processed w =
     (case batch_step env svc name tot (take (nat (batchSize svc)) cursor) processed w of
        (Inl e, w') \<Rightarrow> (Inl e, w')
      | (Inr p, w') \<Rightarrow> (Inr (drop (nat (batchSize svc)) cursor, p), w'))"
  by (simp add: copy_step_def read_batch_take_drop)

lemma chunks_Nil [simp]: "chunks b [] = []"
  by (subst chunks.simps) simp

lemma chunks_step:
  "0 < b \<Longrightarrow> xs \<noteq> [] \<Longrightarrow> chunks b xs = take b xs # chunks b (drop b xs)"
  by (subst chunks.simps) simp

text \<open>
  With a positive batch size the \<open>while\<close> loop ends, and it does what \<open>run_batches\<close> does
  on the pages of the cursor.
\<close>

lemma copy_loop_run_batches:
  assumes "0 < batchSize svc"
  shows "copy_loop env svc name tot cursor processed w =
           Some (run_batches env svc name tot (chunks (nat (batchSize svc)) cursor) processed w)"
proof (induction cursor arbitrary: processed w rule: length_induct)
  case (1 cursor)
  show ?case
  proof (cases "cursor = []")
    case True
    then show ?thesis
      by (subst copy_loop.simps) simp
  next
    case False
    from assms False have shorter: "length (drop (nat (batchSize svc)) cursor) < length cursor"
      by simp
    have ch: "chunks (nat (batchSize svc)) cursor =
                take (nat (batchSize svc)) cursor
                  # chunks (nat (batchSize svc)) (drop (nat (batchSize svc)) cursor)"
      using assms False by (simp add: chunks_step)
    show ?thesis
      using False "1.IH"[rule_format, OF shorter]
      by (subst copy_loop.simps)
         (simp add: copy_step_take_drop ch split: prod.splits sum.splits)
  qed
qed

lemma copy_loop_Nil: "copy_loop env svc name tot [] processed w = Some (Inr (), w)"
  by (subst copy_loop.simps) simp

lemma copyCollection_returns:
  assumes "0 < batchSize svc"
  shows "\<exists>r. copyCollection env svc name w = Some r"
  using assms
  by (simp add: copyCollection_def Let_def copy_loop_run_batches split: prod.splits sum.splits)

lemma concat_chunks: "0 < b \<Longrightarrow> concat (chunks b xs) = xs"
proof (induction xs rule: length_induct)
  case (1 xs)
  show ?case
  proof (cases "xs = []")
    case True
    then show ?thesis by simp
  next
    case False
    with "1.prems" have "length (drop b xs) < length xs" by simp
    with "1.IH" "1.prems" have "concat (chunks b (drop b xs)) = drop b xs" by blast
    moreover have "chunks b xs = take b xs # chunks b (drop b xs)"
      using "1.prems" False by (rule chunks_step)
    ultimately show ?thesis by simp
  qed
qed

lemma length_chunks: "0 < b \<Longrightarrow> length (chunks b xs) = (length xs + b - 1) div b"
proof (induction xs rule: length_induct)
  case (1 xs)
  show ?case
  proof (cases "xs = []")
    case True
    with "1.prems" show ?thesis by simp
  next
    case False
    with "1.prems" have "length (drop b xs) < length xs" by simp
    with "1.IH" "1.prems"
    have IH: "length (chunks b (drop b xs)) = (length (drop b xs) + b - 1) div b" by blast
    have unfold: "chunks b xs = take b xs # chunks b (drop b xs)"
      using "1.prems" False by (rule chunks_step)
    show ?thesis
    proof (cases "length xs \<le> b")
      case True
      from False obtain y ys where "xs = y # ys" by (cases xs) auto
      with True "1.prems" have "(length xs + b - 1) div b = 1"
        by (intro div_nat_eqI) auto
      moreover from True have "chunks b (drop b xs) = []" by simp
      ultimately show ?thesis
        by (simp add: unfold)
    next
      case long: False
      then have e1: "length xs + b - 1 = (length xs - 1) + b" by simp
      have "((length xs - 1) + b) div b = Suc ((length xs - 1) div b)"
        using "1.prems" div_add_self2 [of b "length xs - 1"] by simp
      then have e2: "(length xs + b - 1) div b = Suc ((length xs - 1) div b)"
        by (simp only: e1)
      from long have e3: "length (drop b xs) + b - 1 = length xs - 1" by simp
      have "length (chunks b xs) = Suc (length (chunks b (drop b xs)))"
        by (simp add: unfold)
      also have "\<dots> = Suc ((length xs - 1) div b)"
        by (simp only: IH e3)
      finally show ?thesis
        by (simp only: e2)
    qed
  qed
qed

lemma chunk_sizes: "0 < b \<Longrightarrow> c \<in> set (chunks b xs) \<Longrightarrow> c \<noteq> [] \<and> length c \<le> b"
proof (induction xs rule: length_induct)
  case (1 xs)
  show ?case
  proof (cases "xs = []")
    case True
    with "1.prems" show ?thesis by simp
  next
    case False
    with "1.prems" have shorter: "length (drop b xs) < length xs" by simp
    have unfold: "chunks b xs = take b xs # chunks b (drop b xs)"
      using "1.prems"(1) False by (rule chunks_step)
    with "1.prems" have "c = take b xs \<or> c \<in> set (chunks b (drop b xs))"
      by simp
    then show ?thesis
    proof
      assume "c = take b xs"
      with "1.prems" False show ?thesis by simp
    next
      assume "c \<in> set (chunks b (drop b xs))"
      with "1.IH" shorter "1.prems" show ?thesis by blast
    qed
  qed
qed

lemma last_chunk:
  "0 < b \<Longrightarrow> xs \<noteq> [] \<Longrightarrow>
     length (last (chunks b xs)) = (if length xs mod b = 0 then b else length xs mod b)"
proof (induction xs rule: length_induct)
  case (1 xs)
  from "1.prems" have shorter: "length (drop b xs) < length xs" by simp
  have unfold: "chunks b xs = take b xs # chunks b (drop b xs)"
    using "1.prems" by (rule chunks_step)
  show ?case
  proof (cases "drop b xs = []")
    case True
    then have le: "length xs \<le> b" by simp
    from True have "chunks b xs = [take b xs]"
      by (simp add: unfold)
    with le "1.prems" show ?thesis
      by (cases "length xs = b") auto
  next
    case False
    then have gt: "b < length xs" by simp
    have "chunks b (drop b xs) = take b (drop b xs) # chunks b (drop b (drop b xs))"
      using "1.prems"(1) False by (rule chunks_step)
    then have ne: "chunks b (drop b xs) \<noteq> []" by simp
    from "1.IH" shorter "1.prems"(1) False
    have "length (last (chunks b (drop b xs)))
            = (if length (drop b xs) mod b = 0 then b else length (drop b xs) mod b)"
      by blast
    moreover have "length (drop b xs) mod b = length xs mod b"
      using gt by (simp add: le_mod_geq)
    ultimately show ?thesis
      using ne by (simp add: unfold)
  qed
qed

lemma full_chunks:
  "0 < b \<Longrightarrow> Suc i < length (chunks b xs) \<Longrightarrow> length (chunks b xs ! i) = b"
proof (induction xs arbitrary: i rule: length_induct)
  case (1 xs)
  show ?case
  proof (cases "xs = []")
    case True
    with "1.prems" show ?thesis by simp
  next
    case False
    with "1.prems" have shorter: "length (drop b xs) < length xs" by simp
    have unfold: "chunks b xs = take b xs # chunks b (drop b xs)"
      using "1.prems"(1) False by (rule chunks_step)
    show ?thesis
    proof (cases i)
      case 0
      with "1.prems" unfold have "chunks b (drop b xs) \<noteq> []" by auto
      then have "drop b xs \<noteq> []" by auto
      then have "b \<le> length xs" by simp
      with 0 unfold show ?thesis by simp
    next
      case (Suc j)
      with "1.prems" unfold have "Suc j < length (chunks b (drop b xs))" by simp
      with "1.IH" shorter "1.prems"(1) have "length (chunks b (drop b xs) ! j) = b" by blast
      with Suc unfold show ?thesis by simp
    qed
  qed
qed

lemma chunks_single: "0 < b \<Longrightarrow> xs \<noteq> [] \<Longrightarrow> length xs \<le> b \<Longrightarrow> chunks b xs = [xs]"
  by (simp add: chunks_step)

lemma chunks_two:
  assumes "0 < b" "b < length xs"
  shows "\<exists>c cs. chunks b xs = take b xs # c # cs"
proof -
  from assms have "xs \<noteq> []" "drop b xs \<noteq> []" by auto
  with assms(1) have "chunks b xs = take b xs # take b (drop b xs) # chunks b (drop b (drop b xs))"
    using chunks_step [of b xs] chunks_step [of b "drop b xs"] by simp
  then show ?thesis by blast
qed

subsection \<open>What a run adds to the trace\<close>

lemma emit_simps [simp]:
  "trace (emit c w) = trace w @ [c]"
  "dest (emit c w) = dest w"
  "files (emit c w) = files w"
  "dirs (emit c w) = dirs w"
  by (simp_all add: emit_def)

lemma added_emit [simp]: "added w (emit c w') = added w w' @ (if length (trace w) \<le> length (trace w') then [c] else [])"
  by (simp add: added_def emit_def)

lemma grows_refl [simp]: "grows P w w"
  by (simp add: grows_def)

lemma grows_emit: "grows P w w' \<Longrightarrow> P c \<Longrightarrow> grows P w (emit c w')"
  by (auto simp: grows_def emit_def)

lemma grows_trans: "grows P w w' \<Longrightarrow> grows P w' w'' \<Longrightarrow> grows P w w''"
  by (auto simp: grows_def)

lemma grows_update [simp]:
  "grows P w (w'\<lparr>dest := d\<rparr>) = grows P w w'"
  "grows P w (w'\<lparr>files := f\<rparr>) = grows P w w'"
  "grows P w (w'\<lparr>dirs := ds\<rparr>) = grows P w w'"
  by (simp_all add: grows_def)

lemma grows_added: "grows P w w' \<Longrightarrow> trace w' = trace w @ added w w' \<and> list_all P (added w w')"
  by (auto simp: grows_def added_def)

lemma grows_weaken: "grows P w w' \<Longrightarrow> (\<And>c. P c \<Longrightarrow> Q c) \<Longrightarrow> grows Q w w'"
  by (auto simp: grows_def list_all_iff)

lemma added_trans:
  "grows P w w1 \<Longrightarrow> grows Q w1 w2 \<Longrightarrow> added w w2 = added w w1 @ added w1 w2"
  by (auto simp: grows_def added_def)

lemma sink_insertMany:
  "grows (sink_call name) w (snd (insertMany env name docs w))"
  by (simp add: insertMany_def Let_def grows_emit)

lemma sink_exportBatchToJson:
  "grows (sink_call name) w (snd (exportBatchToJson env svc batch name w))"
  by (simp add: exportBatchToJson_def Let_def grows_emit)

lemma sink_importBatchFromJson:
  "grows (sink_call name) w (snd (importBatchFromJson env svc name w))"
proof -
  let ?fp = "file_path (outputDir svc) name"
  let ?w1 = "emit (FsExists ?fp) w"
  let ?w2 = "emit (FsRead ?fp) ?w1"
  have g2: "grows (sink_call name) w ?w2"
    by (simp add: grows_emit)
  show ?thesis
  proof (cases "files w ?fp")
    case None
    then show ?thesis
      by (simp add: importBatchFromJson_def Let_def grows_emit)
  next
    case (Some content)
    show ?thesis
    proof (cases "parse env content")
      case None
      with Some g2 show ?thesis
        by (simp add: importBatchFromJson_def Let_def grows_emit)
    next
      case parsed: (Some json)
      let ?w3 = "emit (DbCollection Destination name) ?w2"
      obtain r4 w4 where ins: "insertMany env name json ?w3 = (r4, w4)"
        by (cases "insertMany env name json ?w3")
      have "grows (sink_call name) ?w3 w4"
        using sink_insertMany [of name ?w3 env json] ins by simp
      moreover have "grows (sink_call name) w ?w3"
        using g2 by (simp add: grows_emit)
      ultimately have g4: "grows (sink_call name) w w4"
        by (rule grows_trans [rotated])
      show ?thesis
      proof (cases "fails env (FsRead ?fp)")
        case True
        with Some g2 show ?thesis
          by (simp add: importBatchFromJson_def Let_def)
      next
        case False
        with Some parsed ins g4 show ?thesis
          by (cases r4) (simp_all add: importBatchFromJson_def Let_def grows_emit)
      qed
    qed
  qed
qed

lemma sink_calls:
  "grows (sink_call name) w (snd (sink env svc name batch w))"
  by (simp add: sink_def sink_insertMany sink_exportBatchToJson sink_importBatchFromJson)

lemma sink_call_within: "sink_call name c \<Longrightarrow> name \<in> S \<Longrightarrow> within S c"
  by (cases c) auto

lemma grows_sink:
  "name \<in> S \<Longrightarrow> grows (within S) w (snd (sink env svc name batch w))"
  using sink_calls [of name w env svc batch]
  by (rule grows_weaken) (simp add: sink_call_within)

lemma grows_batch_step:
  assumes "name \<in> S"
  shows "grows (within S) w (snd (batch_step env svc name tot batch processed w))"
proof -
  have "grows (within S) w (emit (DbReadBatch name batch) w)"
    using assms by (simp add: grows_emit)
  moreover have "grows (within S) (emit (DbReadBatch name batch) w)
                   (snd (sink env svc name batch (emit (DbReadBatch name batch) w)))"
    using assms by (rule grows_sink)
  ultimately have "grows (within S) w (snd (sink env svc name batch (emit (DbReadBatch name batch) w)))"
    by (rule grows_trans)
  then show ?thesis
    using assms
    by (auto simp: batch_step_def Let_def grows_emit split: prod.splits sum.splits)
qed

lemma grows_copy_step:
  "name \<in> S \<Longrightarrow> grows (within S) w (snd (copy_step env svc name tot cursor processed w))"
  using grows_batch_step [of name S w env svc tot "take (nat (batchSize svc)) cursor" processed]
  by (auto simp: copy_step_take_drop split: prod.splits sum.splits)

lemma grows_copy_loop:
  assumes "copy_loop env svc name tot cursor processed w = Some (r, w')" and "name \<in> S"
  shows "grows (within S) w w'"
proof -
  have "name \<in> S \<longrightarrow> grows (within S) w (snd (r, w'))"
    using assms(1)
  proof (rule copy_loop.raw_induct [rotated])
    fix loop env svc name tot cursor processed and w :: "'a world" and y
    assume IH: "\<And>env svc name tot cursor processed w y.
                  loop env svc name tot cursor processed w = Some y \<Longrightarrow>
                  name \<in> S \<longrightarrow> grows (within S) w (snd y)"
      and body: "(if cursor = [] then Some (Inr (), w)
                  else case copy_step env svc name tot cursor processed w of
                         (Inl e, w') \<Rightarrow> Some (Inl e, w')
                       | (Inr (cursor', processed'), w') \<Rightarrow>
                           loop env svc name tot cursor' processed' w') = Some y"
    show "name \<in> S \<longrightarrow> grows (within S) w (snd y)"
    proof (cases "cursor = []")
      case True
      with body show ?thesis by auto
    next
      case False
      show ?thesis
      proof
        assume S: "name \<in> S"
        obtain res w1 where st: "copy_step env svc name tot cursor processed w = (res, w1)"
          by (cases "copy_step env svc name tot cursor processed w")
        have g1: "grows (within S) w w1"
          using grows_copy_step [OF S, of w env svc tot cursor processed] st by simp
        show "grows (within S) w (snd y)"
        proof (cases res)
          case (Inl e)
          with body False st g1 show ?thesis by auto
        next
          case (Inr cp)
          obtain c p where cp: "cp = (c, p)" by (cases cp)
          from body False st Inr cp
          have "loop env svc name tot c p w1 = Some y" by simp
          from IH [OF this] S have "grows (within S) w1 (snd y)" by simp
          with g1 show ?thesis by (rule grows_trans)
        qed
      qed
    qed
  qed
  with assms(2) show ?thesis by simp
qed

lemma grows_copyCollection:
  assumes "copyCollection env svc name w = Some (r, w')" and "name \<in> S"
  shows "grows (within S) w w'"
proof (cases "fails env (DbCountDocuments name)")
  case True
  with assms show ?thesis
    by (auto simp: copyCollection_def Let_def grows_emit)
next
  case False
  let ?w2 = "emit (DbFind name) (emit (DbCountDocuments name) w)"
  have g0: "grows (within S) w ?w2"
    using assms(2) by (simp add: grows_emit)
  from assms(1) False obtain r3 w3 where
    l: "copy_loop env svc name (length (docs_of env name)) (docs_of env name) 0 ?w2 = Some (r3, w3)"
    by (auto simp: copyCollection_def Let_def split: option.splits)
  from g0 grows_copy_loop [OF l assms(2)] have g3: "grows (within S) w w3"
    by (rule grows_trans)
  from assms(1) False l have "w' = w3 \<or> w' = emit (Log Success (Finished name (length (docs_of env name)))) w3"
    by (auto simp: copyCollection_def Let_def split: sum.splits)
  with g3 show ?thesis
    by (auto simp: grows_emit)
qed

lemma grows_process_all:
  assumes "process_all env svc names w = Some (r, w')" and "set names \<subseteq> S"
  shows "grows (within S) w w'"
  using assms
proof (induction names arbitrary: w)
  case Nil
  then show ?case by simp
next
  case (Cons name rest)
  let ?w1 = "open_collection name w"
  from Cons.prems(2) have inS: "name \<in> S" and restS: "set rest \<subseteq> S" by auto
  have g1: "grows (within S) w ?w1"
    using inS by (simp add: grows_emit open_collection_def)
  show ?case
  proof (cases "dryRun svc")
    case True
    with Cons.prems(1)
    have "process_all env svc rest (emit (Log Info (DryRunWouldCopy name)) ?w1) = Some (r, w')"
      by simp
    from Cons.IH [OF this restS]
    have "grows (within S) (emit (Log Info (DryRunWouldCopy name)) ?w1) w'" .
    moreover have "grows (within S) w (emit (Log Info (DryRunWouldCopy name)) ?w1)"
      using g1 by (simp add: grows_emit)
    ultimately show ?thesis by (rule grows_trans [rotated])
  next
    case False
    with Cons.prems(1) obtain r2 w2 where
      c: "copyCollection env svc name ?w1 = Some (r2, w2)"
      by (auto split: option.splits)
    from g1 grows_copyCollection [OF c inS] have g2: "grows (within S) w w2"
      by (rule grows_trans)
    show ?thesis
    proof (cases r2)
      case (Inl e)
      with Cons.prems(1) False c have "w' = w2" by simp
      with g2 show ?thesis by simp
    next
      case (Inr u)
      with Cons.prems(1) False c have "process_all env svc rest w2 = Some (r, w')" by simp
      from g2 Cons.IH [OF this restS] show ?thesis
        by (rule grows_trans)
    qed
  qed
qed

lemma within_mono: "within S c \<Longrightarrow> S \<subseteq> T \<Longrightarrow> within T c"
  by (cases c) auto

lemma within_no_close: "list_all (within S) ext \<Longrightarrow> closes ext = 0"
  by (induction ext) (auto simp: closes_def)

lemma closes_append [simp]: "closes (xs @ ys) = closes xs + closes ys"
  by (simp add: closes_def)

lemma batches_append [simp]: "batches (xs @ ys) = batches xs @ batches ys"
  by (simp add: batches_def)

lemma batches_simps [simp]:
  "batches [] = []"
  "batches (c # cs) = batch_of c @ batches cs"
  by (simp_all add: batches_def)

lemma sink_call_no_batch: "list_all (sink_call name) ext \<Longrightarrow> batches ext = []"
proof (induction ext)
  case Nil
  then show ?case by simp
next
  case (Cons c cs)
  then show ?case by (cases c) auto
qed

lemma batch_step_batches:
  assumes "batch_step env svc name tot batch processed w = (r, w')"
  shows "\<exists>ext. trace w' = trace w @ ext \<and> batches ext = [batch]"
proof -
  let ?w1 = "emit (DbReadBatch name batch) w"
  obtain r2 w2 where snk: "sink env svc name batch ?w1 = (r2, w2)"
    by (cases "sink env svc name batch ?w1")
  from sink_calls [of name ?w1 env svc batch] snk
  obtain ext where ext: "trace w2 = trace ?w1 @ ext" and quiet: "batches ext = []"
    by (auto simp: grows_def sink_call_no_batch)
  show ?thesis
  proof (cases "fails env (DbReadBatch name batch)")
    case True
    with assms show ?thesis
      by (auto simp: batch_step_def Let_def)
  next
    case False
    with assms snk ext quiet show ?thesis
      by (cases r2) (auto simp: batch_step_def Let_def)
  qed
qed

lemma run_batches_batches:
  assumes "run_batches env svc name tot bs processed w = (Inr (), w')"
  shows "\<exists>ext. trace w' = trace w @ ext \<and> batches ext = bs"
  using assms
proof (induction bs arbitrary: processed w)
  case Nil
  then show ?case by simp
next
  case (Cons batch rest)
  obtain r1 w1 where st: "batch_step env svc name tot batch processed w = (r1, w1)"
    by (cases "batch_step env svc name tot batch processed w")
  from batch_step_batches [OF st]
  obtain e1 where e1: "trace w1 = trace w @ e1" "batches e1 = [batch]" by blast
  from Cons.prems st obtain p1 where "r1 = Inr p1"
    and "run_batches env svc name tot rest p1 w1 = (Inr (), w')"
    by (cases r1) auto
  from Cons.IH [OF this(2)]
  obtain e2 where e2: "trace w' = trace w1 @ e2" "batches e2 = rest" by blast
  from e1 e2 have "trace w' = trace w @ (e1 @ e2) \<and> batches (e1 @ e2) = batch # rest"
    by simp
  then show ?case by blast
qed

lemma appends_simps [simp]:
  "appends [] = []"
  "appends (c # cs) = append_of c @ appends cs"
  "appends (xs @ ys) = appends xs @ appends ys"
  by (simp_all add: appends_def)

subsection \<open>The three modes, one turn at a time\<close>

lemma batch_step_raises:
  "fails env (DbReadBatch name batch) \<Longrightarrow>
     fst (batch_step env svc name tot batch processed w) = Inl BatchReadError"
  "\<not> fails env (DbReadBatch name batch) \<Longrightarrow> \<not> exportJson svc \<Longrightarrow> \<not> importJson svc \<Longrightarrow>
     fails env (DbInsertMany name batch) \<Longrightarrow>
     fst (batch_step env svc name tot batch processed w) = Inl InsertError"
  "\<not> fails env (DbReadBatch name batch) \<Longrightarrow> exportJson svc \<Longrightarrow>
     fails env (FsAppend (file_path (outputDir svc) name) (stringify env batch)) \<Longrightarrow>
     fst (batch_step env svc name tot batch processed w) = Inl FileIOError"
  by (simp_all add: batch_step_def sink_def insertMany_def exportBatchToJson_def Let_def)

text \<open>One turn of the loop in import mode, when the file is there and nothing raises.\<close>

lemma batch_step_import:
  assumes "importJson svc" "\<not> exportJson svc" "\<forall>c. \<not> fails env c"
    and "files w (file_path (outputDir svc) name) = Some content"
    and "parse env content = Some json"
  shows "batch_step env svc name tot batch processed w =
           (Inr (processed + length batch),
            w\<lparr>dest := (dest w)(name := dest w name @ json),
              trace := trace w @
                [DbReadBatch name batch,
                 FsExists (file_path (outputDir svc) name),
                 FsRead (file_path (outputDir svc) name),
                 DbCollection Destination name,
                 DbInsertMany name json,
                 Log Success (Imported (length json) name),
                 Spinner (SpinProgress name (processed + length batch) tot)]\<rparr>)"
  using assms
  by (simp add: batch_step_def sink_def importBatchFromJson_def insertMany_def Let_def emit_def)

lemma run_batches_import:
  assumes "importJson svc" "\<not> exportJson svc" "\<forall>c. \<not> fails env c"
    and "files w (file_path (outputDir svc) name) = Some content"
    and "parse env content = Some json"
  shows "\<exists>ext. run_batches env svc name tot bs processed w =
           (Inr (),
            w\<lparr>dest := (dest w)(name := dest w name @ concat (replicate (length bs) json)),
              trace := trace w @ ext\<rparr>)
         \<and> count_list ext (FsRead (file_path (outputDir svc) name)) = length bs
         \<and> count_list ext (DbInsertMany name json) = length bs
         \<and> length (filter store_write ext) = length bs"
  using assms(4)
proof (induction bs arbitrary: processed w)
  case Nil
  then show ?case by (auto intro: exI [of _ "[]"])
next
  case (Cons batch rest)
  let ?fp = "file_path (outputDir svc) name"
  let ?ev = "[DbReadBatch name batch, FsExists ?fp, FsRead ?fp, DbCollection Destination name,
              DbInsertMany name json, Log Success (Imported (length json) name),
              Spinner (SpinProgress name (processed + length batch) tot)]"
  let ?w1 = "w\<lparr>dest := (dest w)(name := dest w name @ json), trace := trace w @ ?ev\<rparr>"
  have st: "batch_step env svc name tot batch processed w = (Inr (processed + length batch), ?w1)"
    using assms(1-3) Cons.prems assms(5) by (rule batch_step_import)
  have "files ?w1 ?fp = Some content"
    using Cons.prems by simp
  from Cons.IH [OF this, of "processed + length batch"]
  obtain ext where
    run: "run_batches env svc name tot rest (processed + length batch) ?w1 =
            (Inr (),
             ?w1\<lparr>dest := (dest ?w1)(name := dest ?w1 name @ concat (replicate (length rest) json)),
                  trace := trace ?w1 @ ext\<rparr>)"
    and reads: "count_list ext (FsRead ?fp) = length rest"
    and inserts: "count_list ext (DbInsertMany name json) = length rest"
    and writes: "length (filter store_write ext) = length rest"
    by blast
  have "run_batches env svc name tot (batch # rest) processed w =
          (Inr (),
           w\<lparr>dest := (dest w)(name := dest w name @ concat (replicate (length (batch # rest)) json)),
             trace := trace w @ (?ev @ ext)\<rparr>)"
    using st run by simp
  moreover have "count_list (?ev @ ext) (FsRead ?fp) = length (batch # rest)"
    using reads by simp
  moreover have "count_list (?ev @ ext) (DbInsertMany name json) = length (batch # rest)"
    using inserts by simp
  moreover have "length (filter store_write (?ev @ ext)) = length (batch # rest)"
    using writes by simp
  ultimately show ?case by blast
qed

text \<open>One turn of the loop in export mode when nothing raises.\<close>

lemma batch_step_export:
  assumes "exportJson svc" "\<forall>c. \<not> fails env c"
  shows "batch_step env svc name tot batch processed w =
           (Inr (processed + length batch),
            w\<lparr>files := append_file (file_path (outputDir svc) name) (stringify env batch) (files w),
              dirs := insert (outputDir svc) (dirs w),
              trace := trace w @
                [DbReadBatch name batch, FsExists (outputDir svc)]
                @ (if outputDir svc \<in> dirs w then [] else [FsMkdir (outputDir svc)])
                @ [FsAppend (file_path (outputDir svc) name) (stringify env batch),
                   Spinner (SpinProgress name (processed + length batch) tot)]\<rparr>)"
  using assms
  by (simp add: batch_step_def sink_def exportBatchToJson_def Let_def emit_def insert_absorb)

lemma run_batches_export:
  assumes "exportJson svc" "\<forall>c. \<not> fails env c"
  shows "\<exists>ext. run_batches env svc name tot bs processed w =
           (Inr (),
            w\<lparr>files := foldl (\<lambda>fs t. append_file (file_path (outputDir svc) name) t fs)
                          (files w) (map (stringify env) bs),
              dirs := (if bs = [] then dirs w else insert (outputDir svc) (dirs w)),
              trace := trace w @ ext\<rparr>)
         \<and> appends ext = map (\<lambda>batch. (file_path (outputDir svc) name, stringify env batch)) bs
         \<and> filter store_write ext = []"
proof (induction bs arbitrary: processed w)
  case Nil
  then show ?case by (auto intro: exI [of _ "[]"])
next
  case (Cons batch rest)
  let ?fp = "file_path (outputDir svc) name"
  let ?ev = "[DbReadBatch name batch, FsExists (outputDir svc)]
             @ (if outputDir svc \<in> dirs w then [] else [FsMkdir (outputDir svc)])
             @ [FsAppend ?fp (stringify env batch),
                Spinner (SpinProgress name (processed + length batch) tot)]"
  let ?w1 = "w\<lparr>files := append_file ?fp (stringify env batch) (files w),
               dirs := insert (outputDir svc) (dirs w), trace := trace w @ ?ev\<rparr>"
  have st: "batch_step env svc name tot batch processed w = (Inr (processed + length batch), ?w1)"
    using assms by (rule batch_step_export)
  from Cons.IH [of "processed + length batch" ?w1]
  obtain ext where
    run: "run_batches env svc name tot rest (processed + length batch) ?w1 =
            (Inr (),
             ?w1\<lparr>files := foldl (\<lambda>fs t. append_file ?fp t fs) (files ?w1) (map (stringify env) rest),
                  dirs := (if rest = [] then dirs ?w1 else insert (outputDir svc) (dirs ?w1)),
                  trace := trace ?w1 @ ext\<rparr>)"
    and app: "appends ext = map (\<lambda>batch. (?fp, stringify env batch)) rest"
    and quiet: "filter store_write ext = []"
    by blast
  have "run_batches env svc name tot (batch # rest) processed w =
          (Inr (),
           w\<lparr>files := foldl (\<lambda>fs t. append_file ?fp t fs) (files w)
                         (map (stringify env) (batch # rest)),
             dirs := (if batch # rest = [] then dirs w else insert (outputDir svc) (dirs w)),
             trace := trace w @ (?ev @ ext)\<rparr>)"
    using st run by simp
  moreover have "appends (?ev @ ext) = map (\<lambda>batch. (?fp, stringify env batch)) (batch # rest)"
    using app by simp
  moreover have "filter store_write (?ev @ ext) = []"
    using quiet by simp
  ultimately show ?case by blast
qed

text \<open>
  With a batch size that is not positive the inner loop reads nothing, so the cursor never
  advances: in export mode, when no call raises, the \<open>while\<close> loop over a collection that
  is not empty appends an empty array to the file for ever, and \<open>copyCollection\<close> does not
  return.
\<close>

lemma export_never_returns:
  assumes "batchSize svc \<le> 0" "exportJson svc" "\<forall>c. \<not> fails env c" "cursor \<noteq> []"
  shows "copy_loop env svc name tot cursor processed w = None"
proof (rule ccontr)
  assume "copy_loop env svc name tot cursor processed w \<noteq> None"
  then obtain y where "copy_loop env svc name tot cursor processed w = Some y"
    by auto
  then have "\<not> (batchSize svc \<le> 0 \<and> exportJson svc \<and> (\<forall>c. \<not> fails env c) \<and> cursor \<noteq> [])"
  proof (rule copy_loop.raw_induct [rotated])
    fix loop env svc name tot cursor processed and w :: "'a world" and y
    assume IH: "\<And>env svc name tot cursor processed w y.
                  loop env svc name tot cursor processed w = Some y \<Longrightarrow>
                  \<not> (batchSize svc \<le> 0 \<and> exportJson svc \<and> (\<forall>c. \<not> fails env c) \<and> cursor \<noteq> [])"
      and body: "(if cursor = [] then Some (Inr (), w)
                  else case copy_step env svc name tot cursor processed w of
                         (Inl e, w') \<Rightarrow> Some (Inl e, w')
                       | (Inr (cursor', processed'), w') \<Rightarrow>
                           loop env svc name tot cursor' processed' w') = Some y"
    show "\<not> (batchSize svc \<le> 0 \<and> exportJson svc \<and> (\<forall>c. \<not> fails env c) \<and> cursor \<noteq> [])"
    proof
      assume c: "batchSize svc \<le> 0 \<and> exportJson svc \<and> (\<forall>c. \<not> fails env c) \<and> cursor \<noteq> []"
      then have "\<exists>w'. copy_step env svc name tot cursor processed w = (Inr (cursor, processed), w')"
        by (simp add: copy_step_take_drop batch_step_export)
      then obtain w' where "copy_step env svc name tot cursor processed w = (Inr (cursor, processed), w')"
        by blast
      with body c have "loop env svc name tot cursor processed w' = Some y"
        by simp
      from IH [OF this] c show False by blast
    qed
  qed
  with assms show False by blast
qed

lemma append_file_twice:
  "append_file p t (fs(p \<mapsto> s)) = fs(p \<mapsto> s @ t)"
  by (simp add: append_file_def)

lemma foldl_append_file:
  "foldl (\<lambda>fs t. append_file p t fs) (fs(p \<mapsto> s)) ts = fs(p \<mapsto> s @ concat ts)"
  by (induction ts arbitrary: s) (simp_all add: append_file_twice)

lemma foldl_append_file_new:
  assumes "fs p = None"
  shows "foldl (\<lambda>fs t. append_file p t fs) fs ts = (if ts = [] then fs else fs(p \<mapsto> concat ts))"
proof (cases ts)
  case Nil
  then show ?thesis by simp
next
  case (Cons t rest)
  have "append_file p t fs = fs(p \<mapsto> t)"
    using assms by (simp add: append_file_def)
  with Cons show ?thesis
    by (simp add: foldl_append_file)
qed

subsection \<open>The JSON codec of the concrete runs\<close>

lemma split_on_not_Nil [simp]: "split_on c s \<noteq> []"
  by (induction s) (auto split: list.splits)

lemma split_on_no_sep: "c \<notin> set a \<Longrightarrow> split_on c a = [a]"
  by (induction a) auto

lemma split_on_sep: "c \<notin> set a \<Longrightarrow> split_on c (a @ c # r) = a # split_on c r"
  by (induction a) (auto split: list.splits)

lemma split_on_keeps:
  "x \<in> set s \<Longrightarrow> x \<noteq> c \<Longrightarrow> \<exists>p \<in> set (split_on c s). x \<in> set p"
proof (induction s)
  case Nil
  then show ?case by simp
next
  case (Cons y ys)
  obtain p ps where sp: "split_on c ys = p # ps"
    by (cases "split_on c ys") auto
  show ?case
  proof (cases "y = c")
    case True
    with Cons show ?thesis by auto
  next
    case False
    show ?thesis
    proof (cases "x = y")
      case True
      with False sp show ?thesis by auto
    next
      case neq: False
      with Cons obtain q where "q \<in> set (split_on c ys)" "x \<in> set q" by auto
      with False sp show ?thesis by auto
    qed
  qed
qed

lemma dropWhile_keeps: "x \<in> set s \<Longrightarrow> \<not> P x \<Longrightarrow> x \<in> set (dropWhile P s)"
  by (induction s) auto

lemma trim_keeps: "x \<in> set s \<Longrightarrow> \<not> is_space x \<Longrightarrow> x \<in> set (trim s)"
  by (simp add: trim_def dropWhile_keeps)

lemma trim_id: "s \<noteq> [] \<Longrightarrow> \<not> is_space (hd s) \<Longrightarrow> \<not> is_space (last s) \<Longrightarrow> trim s = s"
proof -
  assume s: "s \<noteq> []" and h: "\<not> is_space (hd s)" and l: "\<not> is_space (last s)"
  from s h have "dropWhile is_space s = s"
    by (cases s) auto
  moreover from s l have "dropWhile is_space (rev s) = rev s"
    by (cases "rev s") (auto simp: last_rev [symmetric] simp del: last_rev)
  ultimately show ?thesis
    by (simp add: trim_def)
qed

lemma lit_facts:
  "lit x \<noteq> []" "CHR '','' \<notin> set (lit x)" "CHR '']'' \<notin> set (lit x)"
  "(lit x = ''true'') = x" "lit x = ''true'' \<or> lit x = ''false''"
  by (simp_all add: lit_def)

lemma trim_padded:
  "trim (CHR 0x0A # ''  '' @ lit x) = lit x"
  "trim (CHR 0x0A # ''  '' @ lit x @ [CHR 0x0A]) = lit x"
  by (cases x; simp add: trim_def is_space_def lit_def)+

lemma items_of_printed:
  "map trim (split_on CHR '','' ((CHR 0x0A # ''  '' @ lit x)
      @ concat (map (\<lambda>y. CHR '','' # (CHR 0x0A # ''  '' @ lit y)) xs) @ [CHR 0x0A]))
     = map lit (x # xs)"
proof (induction xs arbitrary: x)
  case Nil
  have "CHR '','' \<notin> set ((CHR 0x0A # ''  '' @ lit x) @ [CHR 0x0A])"
    by (simp add: lit_facts)
  then have "split_on CHR '','' ((CHR 0x0A # ''  '' @ lit x) @ [CHR 0x0A])
               = [(CHR 0x0A # ''  '' @ lit x) @ [CHR 0x0A]]"
    by (rule split_on_no_sep)
  then show ?case
    using trim_padded(2) [of x] by simp
next
  case (Cons y ys)
  let ?rest = "(CHR 0x0A # ''  '' @ lit y)
      @ concat (map (\<lambda>y. CHR '','' # (CHR 0x0A # ''  '' @ lit y)) ys) @ [CHR 0x0A]"
  have "CHR '','' \<notin> set (CHR 0x0A # ''  '' @ lit x)"
    by (simp add: lit_facts)
  then have "split_on CHR '','' ((CHR 0x0A # ''  '' @ lit x) @ CHR '','' # ?rest)
               = (CHR 0x0A # ''  '' @ lit x) # split_on CHR '','' ?rest"
    by (rule split_on_sep)
  moreover have "map trim (split_on CHR '','' ?rest) = map lit (y # ys)"
    by (rule Cons.IH)
  ultimately show ?case
    using trim_padded(1) [of x] by simp
qed

lemma printed_shape:
  "\<exists>m. bools_stringify ds = CHR ''['' # m @ [CHR '']'']"
  by (cases ds) (auto simp: bools_stringify_def)

lemma bools_roundtrip: "bools_parse (bools_stringify ds) = Some ds"
proof (cases ds)
  case Nil
  then show ?thesis
    by (simp add: bools_parse_def bools_stringify_def trim_def is_space_def)
next
  case (Cons x xs)
  let ?inner = "(CHR 0x0A # ''  '' @ lit x)
      @ concat (map (\<lambda>y. CHR '','' # (CHR 0x0A # ''  '' @ lit y)) xs) @ [CHR 0x0A]"
  let ?p = "bools_stringify ds"
  have p: "?p = CHR ''['' # ?inner @ [CHR '']'']"
    using Cons by (simp add: bools_stringify_def)
  have t: "trim ?p = ?p"
    by (rule trim_id) (simp_all add: p is_space_def)
  have inner: "butlast (tl ?p) = ?inner"
    by (simp only: p list.sel butlast_snoc)
  obtain c cs where "lit x = c # cs" "\<not> is_space c"
    by (cases x) (auto simp: lit_def is_space_def)
  then have "c \<in> set ?inner" by simp
  then have "c \<in> set (trim ?inner)" using \<open>\<not> is_space c\<close> by (rule trim_keeps)
  then have ne: "trim ?inner \<noteq> []" by auto
  have items: "map trim (split_on CHR '','' ?inner) = map lit ds"
    using items_of_printed [of x xs] Cons by simp
  have ok: "list_all (\<lambda>i. i = ''true'' \<or> i = ''false'') (map lit ds)"
    by (simp add: list_all_iff lit_facts(5))
  have again: "map (\<lambda>i. i = ''true'') (map lit ds) = ds"
    by (simp add: lit_facts(4) comp_def)
  have len: "\<not> length ?p < 2" and hd: "hd ?p = CHR ''[''" and last: "last ?p = CHR '']''"
    by (simp_all add: p)
  show ?thesis
    unfolding bools_parse_def Let_def t inner items
    using len hd last ne ok again by simp
qed

lemma mem_not_Nil: "x \<in> set xs \<Longrightarrow> xs \<noteq> []"
  by auto

lemma dropWhile_append_keeps:
  "x \<in> set xs \<Longrightarrow> \<not> P x \<Longrightarrow> dropWhile P (xs @ ys) = dropWhile P xs @ ys"
  by (induction xs) auto

lemma bools_reject:
  "bools_parse (bools_stringify a @ bools_stringify b @ rest) = None"
proof -
  obtain m where A: "bools_stringify a = CHR ''['' # m @ [CHR '']'']"
    using printed_shape by blast
  obtain m' where B: "bools_stringify b = CHR ''['' # m' @ [CHR '']'']"
    using printed_shape by blast
  let ?A = "CHR ''['' # m @ [CHR '']'']"
  let ?u = "(CHR ''['' # m' @ [CHR '']'']) @ rest"
  let ?s = "?A @ ?u"
  let ?u' = "rev (dropWhile is_space (rev ?u))"
  have open_bracket: "\<not> is_space CHR ''[''" and close_bracket: "\<not> is_space CHR '']''"
    by (simp_all add: is_space_def)
  have left: "dropWhile is_space ?s = ?s"
    using open_bracket by simp
  have "CHR ''['' \<in> set (rev ?u)" by simp
  then have right: "dropWhile is_space (rev ?u @ rev ?A) = dropWhile is_space (rev ?u) @ rev ?A"
    using open_bracket by (rule dropWhile_append_keeps)
  have "CHR ''['' \<in> set (dropWhile is_space (rev ?u))"
    using open_bracket by (intro dropWhile_keeps) simp_all
  then have "dropWhile is_space (rev ?u) \<noteq> []" by (rule mem_not_Nil)
  then have u': "?u' \<noteq> []" by (simp only: rev_is_Nil_conv not_False_eq_True)
  have "trim ?s = rev (dropWhile is_space (rev ?u @ rev ?A))"
    unfolding trim_def left by simp
  also have "\<dots> = ?A @ ?u'"
    unfolding right by simp
  finally have t: "trim ?s = ?A @ ?u'" .
  have "butlast (tl (?A @ ?u')) = (m @ [CHR '']'']) @ butlast ?u'"
    using u' by (simp add: butlast_append)
  then have inner: "CHR '']'' \<in> set (butlast (tl (trim ?s)))"
    unfolding t by simp
  let ?inner = "butlast (tl (trim ?s))"
  from inner close_bracket have "CHR '']'' \<in> set (trim ?inner)"
    by (rule trim_keeps)
  then have ne: "trim ?inner \<noteq> []" by (rule mem_not_Nil)
  from inner obtain p where p: "p \<in> set (split_on CHR '','' ?inner)" "CHR '']'' \<in> set p"
    using split_on_keeps [of "CHR '']''" ?inner "CHR '',''"] by auto
  from p(2) close_bracket have "CHR '']'' \<in> set (trim p)"
    by (rule trim_keeps)
  then have "trim p \<noteq> ''true''" "trim p \<noteq> ''false''"
    by auto
  with p(1) have bad: "\<not> list_all (\<lambda>i. i = ''true'' \<or> i = ''false'')
                            (map trim (split_on CHR '','' ?inner))"
    by (auto simp: list_all_iff)
  have "bools_parse ?s = None"
    unfolding bools_parse_def Let_def using ne bad by simp
  then show ?thesis
    by (simp only: A B)
qed

lemma bools_codec: "stringify env = bools_stringify \<Longrightarrow> parse env = bools_parse \<Longrightarrow> json_codec env"
  by (simp add: json_codec_def bools_roundtrip bools_reject)

text \<open>Unfolding a run on concrete inputs.\<close>

lemmas run_defs =
  MongoCopyService_def plain_options_def listCollections_def ask_confirm_def open_collection_def
  demo_def no_faults_def says_def fresh_def copyCollection_def docs_of_def
  copy_loop_run_batches copy_loop_Nil chunks_step batch_step_def sink_def insertMany_def Let_def

subsection \<open>Cleanup\<close>

text \<open>
  How often a run of \<open>copyCollections\<close> closes the clients: once when the plan was
  listed and the prompt was passed, whether the loop then completed or raised; not at all
  when listing raised, when the prompt raised, or when the user declined. The call of
  \<open>listCollections\<close> and the prompt with its early \<open>return\<close> stand before the \<open>try\<close>
  whose \<open>finally\<close> closes the clients.
\<close>

lemma copyCollections_closes:
  assumes "copyCollections env svc w = Some (out, svc', w')"
  shows "closes (added w w') =
           (case listCollections env svc w of
              (Inl e, svc1, w1) \<Rightarrow> 0
            | (Inr plan, svc1, w1) \<Rightarrow>
                (case ask_confirm env svc1 plan w1 of
                   (Inl e, w2) \<Rightarrow> 0
                 | (Inr ok, w2) \<Rightarrow> if ok then 1 else 0))"
proof -
  obtain r1 svc1 w1 where enum: "listCollections env svc w = (r1, svc1, w1)"
    by (cases "listCollections env svc w")
  have t1: "trace w1 = trace w @ [DbListCollections]"
    using enum by (auto simp: listCollections_def Let_def split: if_splits)
  show ?thesis
  proof (cases r1)
    case (Inl e)
    with assms enum t1 show ?thesis
      by (auto simp: copyCollections_def added_def closes_def)
  next
    case (Inr plan)
    obtain r2 w2 where asked: "ask_confirm env svc1 plan w1 = (r2, w2)"
      by (cases "ask_confirm env svc1 plan w1")
    have t2: "trace w2 = trace w1 \<or> trace w2 = trace w1 @ [Ask (ConfirmCopy plan)]"
      using asked by (auto simp: ask_confirm_def Let_def split: if_splits)
    show ?thesis
    proof (cases r2)
      case (Inl e)
      with assms enum Inr asked t1 t2 show ?thesis
        by (auto simp: copyCollections_def added_def closes_def)
    next
      case ok: (Inr ok)
      show ?thesis
      proof (cases ok)
        case False
        with assms enum Inr asked ok t1 t2 show ?thesis
          by (auto simp: copyCollections_def added_def closes_def)
      next
        case True
        let ?w3 = "emit (Spinner SpinStart) w2"
        from assms enum Inr asked ok True obtain r wp where
          loop: "process_all env svc1 plan ?w3 = Some (r, wp)"
          by (auto simp: copyCollections_def try_copy_def split: option.splits)
        from grows_process_all [OF loop subset_refl]
        obtain ext where ext: "trace wp = trace ?w3 @ ext" and inside: "list_all (within (set plan)) ext"
          by (auto simp: grows_def)
        have c2: "closes ext = 0"
          using inside by (rule within_no_close)
        from t1 t2 obtain front where front: "trace ?w3 = trace w @ front" and c1: "closes front = 0"
          by (auto simp: closes_def)
        from assms enum Inr asked ok True loop
        obtain tail where tail: "trace w' = trace wp @ tail" and c3: "closes tail = 1"
          by (cases r) (auto simp: copyCollections_def try_copy_def closeClients_def closes_def)
        have "added w w' = front @ ext @ tail"
          using front ext tail by (simp add: added_def)
        with c1 c2 c3 enum Inr asked ok True show ?thesis
          by simp
      qed
    qed
  qed
qed

text \<open>
  C1 at two inputs. A user who answers no, and a source that cannot list its
  collections: the run ends, one by returning and one by raising, and the clients were
  not closed.
\<close>

theorem cleanup_skipped_before_try:
  "map_option (\<lambda>(out, svc, w). (out, closes (trace w), trace w))
     (copyCollections (demo\<lparr>reply := says False\<rparr>) (MongoCopyService plain_options) fresh)
     = Some (Returned, 0,
         [DbListCollections, Ask (ConfirmCopy [''users'', ''posts'', ''tags'']), Log Warn Cancelled])
   \<and> map_option (\<lambda>(out, svc, w). (out, closes (trace w), trace w))
       (copyCollections (demo\<lparr>fails := (\<lambda>c. c = DbListCollections)\<rparr>)
          (MongoCopyService plain_options) fresh)
     = Some (Threw EnumerationError, 0, [DbListCollections])"
  by (simp add: copyCollections_def closes_def run_defs)

text \<open>
  The command line closes the clients once more after \<open>copyCollections\<close> has returned
  (index.js, line 167), and not at all when it raised: a completed run closes them twice,
  a run whose listing failed never.
\<close>

lemma main_closes_twice_or_never:
  "map_option (\<lambda>(code, w). (code, closes (trace w))) (main demo full_penv plain_cli fresh)
     = Some (0, 2)
   \<and> map_option (\<lambda>(code, w). (code, closes (trace w)))
       (main (demo\<lparr>fails := (\<lambda>c. c = DbListCollections)\<rparr>) full_penv plain_cli fresh)
     = Some (1, 0)"
  by (simp add: main_def run_service_def initClients_def cli_options_def cli_batch_def
      normalizeCollections_def plain_cli_def full_penv_def copyCollections_def try_copy_def
      closeClients_def closes_def run_defs)

subsection \<open>Errors while streaming\<close>

lemma process_all_append:
  "process_all env svc (xs @ ys) w =
     (case process_all env svc xs w of
        None \<Rightarrow> None
      | Some (Inl e, w') \<Rightarrow> Some (Inl e, w')
      | Some (Inr u, w') \<Rightarrow> process_all env svc ys w')"
  by (induction xs arbitrary: w) (auto simp: Let_def split: option.splits sum.splits)

text \<open>
  C2. Take a run of \<open>copyCollections\<close> that is not a dry run, whose plan is
  \<open>pre @ k # post\<close>, that got through the prompt, and in which the collections of \<open>pre\<close>
  were copied and streaming \<open>k\<close> raised \<open>e\<close>, leaving the world \<open>wx\<close>. Then the run ends
  at once: after \<open>wx\<close> it only marks the spinner as failed, logs the error and closes the
  two clients, so \<open>k\<close> is not tried again, and the stores and files stay as the failure
  left them. From the start of the loop to the failure no call names a collection
  outside \<open>pre\<close> and \<open>k\<close>, so the collections of \<open>post\<close> are not processed. The
  clients are closed exactly once in the whole run.
\<close>

theorem streaming_error_aborts_job:
  assumes enum: "listCollections env svc w = (Inr (pre @ k # post), svc1, w1)"
    and asked: "ask_confirm env svc1 (pre @ k # post) w1 = (Inr True, w2)"
    and wet: "\<not> dryRun svc1"
    and before: "process_all env svc1 pre (emit (Spinner SpinStart) w2) = Some (Inr (), wk)"
    and raised: "copyCollection env svc1 k (open_collection k wk) = Some (Inl e, wx)"
  shows "\<exists>w'. copyCollections env svc w = Some (Returned, svc1, w')
           \<and> added wx w' = [Spinner SpinFail, Log Err (ErrorMessage e),
                             DbClose Source, DbClose Destination]
           \<and> dest w' = dest wx \<and> files w' = files wx \<and> dirs w' = dirs wx
           \<and> list_all (within (set pre \<union> {k})) (added (emit (Spinner SpinStart) w2) wx)
           \<and> closes (added w w') = 1"
proof -
  let ?w3 = "emit (Spinner SpinStart) w2"
  let ?w' = "closeClients (emit (Log Err (ErrorMessage e)) (emit (Spinner SpinFail) wx))"
  let ?S = "set pre \<union> {k}"
  have loop: "process_all env svc1 (pre @ k # post) ?w3 = Some (Inl e, wx)"
    using wet before raised by (simp add: process_all_append)
  then have run: "copyCollections env svc w = Some (Returned, svc1, ?w')"
    using enum asked by (simp add: copyCollections_def try_copy_def)
  have g_pre: "grows (within ?S) ?w3 wk"
    using grows_process_all [OF before, of ?S] by auto
  have g_open: "grows (within ?S) wk (open_collection k wk)"
    by (simp add: open_collection_def grows_emit)
  have g_k: "grows (within ?S) (open_collection k wk) wx"
    using grows_copyCollection [OF raised, of ?S] by auto
  have g_loop: "grows (within ?S) ?w3 wx"
    using g_pre g_open g_k by (blast intro: grows_trans)
  have t1: "trace w1 = trace w @ [DbListCollections]"
    using enum by (auto simp: listCollections_def Let_def split: if_splits)
  have t2: "trace w2 = trace w1 \<or> trace w2 = trace w1 @ [Ask (ConfirmCopy (pre @ k # post))]"
    using asked by (auto simp: ask_confirm_def Let_def split: if_splits)
  from t1 t2 obtain front where front: "trace ?w3 = trace w @ front" and c1: "closes front = 0"
    by (auto simp: closes_def)
  from g_loop obtain ext where ext: "trace wx = trace ?w3 @ ext" and inside: "list_all (within ?S) ext"
    by (auto simp: grows_def)
  have c2: "closes ext = 0"
    using inside by (rule within_no_close)
  have a1: "added ?w3 wx = ext"
    using ext by (simp add: added_def)
  have "trace ?w' = trace w @ front @ ext
          @ [Spinner SpinFail, Log Err (ErrorMessage e), DbClose Source, DbClose Destination]"
    using front ext by (simp add: closeClients_def)
  then have "added w ?w' = front @ ext
          @ [Spinner SpinFail, Log Err (ErrorMessage e), DbClose Source, DbClose Destination]"
    by (simp add: added_def)
  then have "closes (added w ?w') = 1"
    using c1 c2 by (simp add: closes_def)
  moreover have "added wx ?w' = [Spinner SpinFail, Log Err (ErrorMessage e),
                                 DbClose Source, DbClose Destination]"
    by (simp add: added_def closeClients_def)
  ultimately show ?thesis
    using run inside a1 by (simp add: closeClients_def)
qed

theorem streaming_error_aborts_job_witness:
  "\<exists>wk wx w'.
     listCollections broken eager fresh
       = (Inr ([''users''] @ ''posts'' # [''tags'']),
          eager\<lparr>collections := [''users'', ''posts'', ''tags'']\<rparr>, emit DbListCollections fresh)
   \<and> ask_confirm broken (eager\<lparr>collections := [''users'', ''posts'', ''tags'']\<rparr>)
         ([''users''] @ ''posts'' # [''tags'']) (emit DbListCollections fresh)
       = (Inr True, emit DbListCollections fresh)
   \<and> \<not> dryRun (eager\<lparr>collections := [''users'', ''posts'', ''tags'']\<rparr>)
   \<and> process_all broken (eager\<lparr>collections := [''users'', ''posts'', ''tags'']\<rparr>) [''users'']
         (emit (Spinner SpinStart) (emit DbListCollections fresh)) = Some (Inr (), wk)
   \<and> copyCollection broken (eager\<lparr>collections := [''users'', ''posts'', ''tags'']\<rparr>) ''posts''
         (open_collection ''posts'' wk) = Some (Inl InsertError, wx)
   \<and> copyCollections broken eager fresh
       = Some (Returned, eager\<lparr>collections := [''users'', ''posts'', ''tags'']\<rparr>, w')
   \<and> added wx w' = [Spinner SpinFail, Log Err (ErrorMessage InsertError),
                     DbClose Source, DbClose Destination]
   \<and> dest w' = dest wx
   \<and> list_all (within (set [''users''] \<union> {''posts''}))
         (added (emit (Spinner SpinStart) (emit DbListCollections fresh)) wx)
   \<and> closes (added fresh w') = 1"
proof -
  let ?svc1 = "eager\<lparr>collections := [''users'', ''posts'', ''tags'']\<rparr>"
  let ?w1 = "emit DbListCollections fresh :: bool world"
  have enum: "listCollections broken eager fresh
                = (Inr ([''users''] @ ''posts'' # [''tags'']), ?svc1, ?w1)"
    by (simp add: broken_def eager_def run_defs)
  have asked: "ask_confirm broken ?svc1 ([''users''] @ ''posts'' # [''tags'']) ?w1 = (Inr True, ?w1)"
    by (simp add: broken_def eager_def run_defs)
  have wet: "\<not> dryRun ?svc1"
    by (simp add: eager_def run_defs)
  have "\<exists>wk. process_all broken ?svc1 [''users''] (emit (Spinner SpinStart) ?w1) = Some (Inr (), wk)"
    by (simp add: broken_def eager_def run_defs)
  then obtain wk where
    before: "process_all broken ?svc1 [''users''] (emit (Spinner SpinStart) ?w1) = Some (Inr (), wk)" ..
  have "\<exists>wx. copyCollection broken ?svc1 ''posts'' (open_collection ''posts'' wk)
          = Some (Inl InsertError, wx)"
    by (simp add: broken_def eager_def run_defs)
  then obtain wx where
    raised: "copyCollection broken ?svc1 ''posts'' (open_collection ''posts'' wk)
               = Some (Inl InsertError, wx)" ..
  from streaming_error_aborts_job [OF enum asked wet before raised]
  obtain w' where
    "copyCollections broken eager fresh = Some (Returned, ?svc1, w')"
    "added wx w' = [Spinner SpinFail, Log Err (ErrorMessage InsertError),
                    DbClose Source, DbClose Destination]"
    "dest w' = dest wx"
    "list_all (within (set [''users''] \<union> {''posts''})) (added (emit (Spinner SpinStart) ?w1) wx)"
    "closes (added fresh w') = 1"
    by blast
  with enum asked wet before raised show ?thesis
    by blast
qed

subsection \<open>The collection plan\<close>

text \<open>
  C3. When listing the source's collections succeeds, with \<open>R\<close> the requested names and \<open>A\<close>
  the names the store returns: the plan is \<open>A\<close>, in the store's order, when \<open>R\<close> is empty;
  otherwise it is \<open>R\<close> without the names that are not in \<open>A\<close>, in the order of \<open>R\<close>. Names
  that are missing raise no error. The plan is also what the service keeps as its
  collections.
\<close>

theorem listCollections_plan:
  assumes "\<not> fails env DbListCollections"
  shows "\<exists>plan svc' w'.
           listCollections env svc w = (Inr plan, svc', w')
         \<and> collections svc' = plan
         \<and> (collections svc = [] \<longrightarrow> plan = map fst (source env))
         \<and> (collections svc \<noteq> [] \<longrightarrow>
              plan = filter (\<lambda>c. c \<in> fst ` set (source env)) (collections svc)
            \<and> subseq plan (collections svc)
            \<and> set plan = set (collections svc) \<inter> fst ` set (source env))"
  using assms by (auto simp: listCollections_def Let_def)

theorem listCollections_plan_witness:
  "\<not> fails demo DbListCollections
   \<and> fst (listCollections demo
            (MongoCopyService (plain_options\<lparr>opt_collections := Some [''tags'', ''x'', ''users'']\<rparr>))
            fresh)
       = Inr [''tags'', ''users'']"
proof -
  let ?svc = "MongoCopyService (plain_options\<lparr>opt_collections := Some [''tags'', ''x'', ''users'']\<rparr>)"
  have h: "\<not> fails demo DbListCollections"
    by (simp add: demo_def no_faults_def)
  from listCollections_plan [OF h, of ?svc fresh]
  obtain plan svc' w' where
    r: "listCollections demo ?svc fresh = (Inr plan, svc', w')" and
    p: "collections ?svc \<noteq> [] \<longrightarrow>
          plan = filter (\<lambda>c. c \<in> fst ` set (source demo)) (collections ?svc)"
    by blast
  have "plan = [''tags'', ''users'']"
    using p by (simp add: MongoCopyService_def plain_options_def demo_def)
  with h r show ?thesis by simp
qed

subsection \<open>Batches\<close>

text \<open>
  C4. With a batch size \<open>b > 0\<close>, streaming a collection always returns. When it returns
  without error, the batches it read are the \<open>n\<close> documents of the collection, in order,
  cut into \<open>\<lceil>n/b\<rceil>\<close> batches: none is empty, none is longer than \<open>b\<close>, all but the last
  have length \<open>b\<close>, and the last has length \<open>n mod b\<close>, or \<open>b\<close> when \<open>b\<close> divides \<open>n\<close>. An
  empty collection gives no batch.
\<close>

theorem batches_of_collection:
  assumes "0 < batchSize svc"
  shows "\<exists>r w'. copyCollection env svc name w = Some (r, w')
           \<and> (r = Inr () \<longrightarrow>
                concat (batches (added w w')) = docs_of env name
              \<and> length (batches (added w w'))
                  = (length (docs_of env name) + nat (batchSize svc) - 1) div nat (batchSize svc)
              \<and> (\<forall>batch \<in> set (batches (added w w')).
                    batch \<noteq> [] \<and> length batch \<le> nat (batchSize svc))
              \<and> (\<forall>i. Suc i < length (batches (added w w')) \<longrightarrow>
                    length (batches (added w w') ! i) = nat (batchSize svc))
              \<and> (docs_of env name \<noteq> [] \<longrightarrow>
                    length (last (batches (added w w')))
                      = (if length (docs_of env name) mod nat (batchSize svc) = 0
                         then nat (batchSize svc)
                         else length (docs_of env name) mod nat (batchSize svc)))
              \<and> (docs_of env name = [] \<longrightarrow> batches (added w w') = []))"
proof -
  let ?b = "nat (batchSize svc)"
  let ?docs = "docs_of env name"
  from assms have b: "0 < ?b" by simp
  from copyCollection_returns [OF assms, of env name w]
  obtain r w' where run: "copyCollection env svc name w = Some (r, w')" by auto
  have "batches (added w w') = chunks ?b ?docs" if ok: "r = Inr ()"
  proof -
    let ?w2 = "emit (DbFind name) (emit (DbCountDocuments name) w)"
    obtain r3 w3 where
      loop: "run_batches env svc name (length ?docs) (chunks ?b ?docs) 0 ?w2 = (r3, w3)"
      by (cases "run_batches env svc name (length ?docs) (chunks ?b ?docs) 0 ?w2")
    from run ok loop have r3: "r3 = Inr ()"
      and w': "w' = emit (Log Success (Finished name (length ?docs))) w3"
      by (auto simp: copyCollection_def Let_def copy_loop_run_batches [OF assms]
               split: if_splits sum.splits)
    from run_batches_batches [OF loop [unfolded r3]]
    obtain ext where "trace w3 = trace ?w2 @ ext" "batches ext = chunks ?b ?docs" by blast
    with w' show ?thesis
      by (simp add: added_def)
  qed
  with run b show ?thesis
    using concat_chunks [OF b, of ?docs] length_chunks [OF b, of ?docs]
      chunk_sizes [OF b, of _ ?docs] full_chunks [OF b, of _ ?docs] last_chunk [OF b, of ?docs]
    by auto
qed

theorem batches_of_collection_witness:
  "0 < batchSize eager
   \<and> copyCollection demo eager ''users'' fresh
       = Some (Inr (),
           fresh\<lparr>dest := (dest fresh)(''users'' := [True, False, True]),
                 trace := [DbCountDocuments ''users'', DbFind ''users'',
                           DbReadBatch ''users'' [True, False], DbInsertMany ''users'' [True, False],
                           Spinner (SpinProgress ''users'' 2 3),
                           DbReadBatch ''users'' [True], DbInsertMany ''users'' [True],
                           Spinner (SpinProgress ''users'' 3 3),
                           Log Success (Finished ''users'' 3)]\<rparr>)
   \<and> length (docs_of demo ''users'') = 3
   \<and> (\<exists>w'. copyCollection demo eager ''users'' fresh = Some (Inr (), w')
          \<and> concat (batches (added fresh w')) = docs_of demo ''users''
          \<and> length (batches (added fresh w')) = 2
          \<and> length (last (batches (added fresh w'))) = 1)"
proof -
  have b: "0 < batchSize eager"
    by (simp add: eager_def MongoCopyService_def plain_options_def)
  have n: "docs_of demo ''users'' = [True, False, True]"
    by (simp add: docs_of_def demo_def)
  have bs: "nat (batchSize eager) = 2"
    by (simp add: eager_def MongoCopyService_def plain_options_def)
  have run: "copyCollection demo eager ''users'' fresh
       = Some (Inr (),
           fresh\<lparr>dest := (dest fresh)(''users'' := [True, False, True]),
                 trace := [DbCountDocuments ''users'', DbFind ''users'',
                           DbReadBatch ''users'' [True, False], DbInsertMany ''users'' [True, False],
                           Spinner (SpinProgress ''users'' 2 3),
                           DbReadBatch ''users'' [True], DbInsertMany ''users'' [True],
                           Spinner (SpinProgress ''users'' 3 3),
                           Log Success (Finished ''users'' 3)]\<rparr>)"
    by (simp add: eager_def emit_def run_defs)
  from batches_of_collection [OF b, of demo "''users''" fresh] run
  have "\<exists>w'. copyCollection demo eager ''users'' fresh = Some (Inr (), w')
          \<and> concat (batches (added fresh w')) = docs_of demo ''users''
          \<and> length (batches (added fresh w')) = 2
          \<and> length (last (batches (added fresh w'))) = 1"
    by (simp add: n bs)
  with b run n show ?thesis by simp
qed

subsection \<open>Dry run\<close>

text \<open>What the loop does for one collection of the plan when \<open>dryRun\<close> is set.\<close>

lemma process_all_dryRun:
  assumes "dryRun svc"
  shows "process_all env svc plan w =
           Some (Inr (), w\<lparr>trace := trace w @ concat (map (\<lambda>name.
             [Spinner (SpinProcessing name), DbCollection Source name,
              DbCollection Destination name, Log Info (DryRunWouldCopy name)]) plan)\<rparr>)"
  using assms by (induction plan arbitrary: w) (simp_all add: emit_def open_collection_def)

text \<open>
  C5, as amended. When \<open>dryRun\<close> is true the loop goes through the whole plan, in order,
  and ends without error. For every collection it sets the spinner text, opens the two
  collection handles and logs; it makes no write to the destination store, no call to the
  file system and no operation on the documents of a collection, and the destination
  store, the files and the directories are as before.
\<close>

theorem dryRun_log_only:
  assumes "dryRun svc"
  shows "\<exists>w'. process_all env svc plan w = Some (Inr (), w')
           \<and> added w w' = concat (map (\<lambda>name.
                [Spinner (SpinProcessing name), DbCollection Source name,
                 DbCollection Destination name, Log Info (DryRunWouldCopy name)]) plan)
           \<and> filter store_write (added w w') = []
           \<and> filter file_call (added w w') = []
           \<and> filter document_call (added w w') = []
           \<and> dest w' = dest w \<and> files w' = files w \<and> dirs w' = dirs w"
proof -
  let ?ev = "\<lambda>name. [Spinner (SpinProcessing name), DbCollection Source name,
              DbCollection Destination name, Log Info (DryRunWouldCopy name) :: 'a call]"
  have "filter store_write (concat (map ?ev plan)) = []"
    and "filter file_call (concat (map ?ev plan)) = []"
    and "filter document_call (concat (map ?ev plan)) = []"
    by (induction plan) simp_all
  then show ?thesis
    by (simp add: process_all_dryRun [OF assms] added_def)
qed

theorem dryRun_log_only_witness:
  "dryRun (MongoCopyService (plain_options\<lparr>opt_dryRun := Some True\<rparr>))
   \<and> (\<exists>w'. process_all demo (MongoCopyService (plain_options\<lparr>opt_dryRun := Some True\<rparr>))
              [''users'', ''posts''] fresh = Some (Inr (), w')
          \<and> filter store_write (added fresh w') = []
          \<and> filter file_call (added fresh w') = []
          \<and> dest w' = dest fresh)"
proof -
  let ?svc = "MongoCopyService (plain_options\<lparr>opt_dryRun := Some True\<rparr>)"
  have h: "dryRun ?svc"
    by (simp add: MongoCopyService_def plain_options_def)
  from dryRun_log_only [OF h, of demo "[''users'', ''posts'']" fresh] h
  show ?thesis by blast
qed

text \<open>
  In a dry run the handles of the collection are opened all the same: lines 63-64 come
  before the test of \<open>dryRun\<close>.
\<close>

theorem dryRun_opens_handles:
  "process_all demo (MongoCopyService (plain_options\<lparr>opt_dryRun := Some True\<rparr>)) [''users''] fresh
     = Some (Inr (), fresh\<lparr>trace :=
         [Spinner (SpinProcessing ''users''), DbCollection Source ''users'',
          DbCollection Destination ''users'', Log Info (DryRunWouldCopy ''users'')]\<rparr>)"
  by (simp add: MongoCopyService_def plain_options_def emit_def fresh_def open_collection_def)

subsection \<open>The sink modes\<close>

text \<open>
  C6, as amended. The command line rejects \<open>--export-json\<close> together with \<open>--import-json\<close>:
  it logs an error and exits with code 1, before the service is constructed and before
  any call to a store or to the file system. The constructor itself accepts both flags.
  Whatever the flags, each batch goes to exactly one sink, chosen by an if/else-if chain
  in which export comes before import.
\<close>

theorem export_import_together:
  "(cli_exportJson opts \<and> cli_importJson opts \<longrightarrow>
      (\<exists>m. main env pe opts w = Some (1, emit (Log Err m) w)))
   \<and> (opt_exportJson o' = Some True \<and> opt_importJson o' = Some True \<longrightarrow>
        exportJson (MongoCopyService o') \<and> importJson (MongoCopyService o'))
   \<and> (exportJson svc \<longrightarrow>
        sink env svc name batch w = exportBatchToJson env svc batch name w)
   \<and> (\<not> exportJson svc \<and> importJson svc \<longrightarrow>
        sink env svc name batch w = importBatchFromJson env svc name w)
   \<and> (\<not> exportJson svc \<and> \<not> importJson svc \<longrightarrow>
        sink env svc name batch w = insertMany env name batch w)"
  by (auto simp: main_def Let_def sink_def MongoCopyService_def)

theorem export_import_together_witness:
  "cli_exportJson (plain_cli\<lparr>cli_exportJson := True, cli_importJson := True\<rparr>)
   \<and> cli_importJson (plain_cli\<lparr>cli_exportJson := True, cli_importJson := True\<rparr>)
   \<and> main demo full_penv (plain_cli\<lparr>cli_exportJson := True, cli_importJson := True\<rparr>) fresh
       = Some (1, emit (Log Err ExportImportTogether) fresh)"
proof -
  let ?c = "plain_cli\<lparr>cli_exportJson := True, cli_importJson := True\<rparr>"
  have h: "cli_exportJson ?c \<and> cli_importJson ?c" by simp
  from export_import_together [of ?c demo full_penv fresh] h
  obtain m where m: "main demo full_penv ?c fresh = Some (1, emit (Log Err m) (fresh :: bool world))"
    by blast
  have "m = ExportImportTogether"
    using m by (simp add: main_def full_penv_def Let_def plain_cli_def emit_def fresh_def)
  with m h show ?thesis by simp
qed

text \<open>
  The constructor does not reject the two flags together: the service it builds has both
  set, and a run of it exports, writing a file.
\<close>

theorem constructor_accepts_both:
  "exportJson (MongoCopyService (plain_options\<lparr>opt_exportJson := Some True,
      opt_importJson := Some True, opt_yes := Some True, opt_collections := Some [''posts'']\<rparr>))
   \<and> importJson (MongoCopyService (plain_options\<lparr>opt_exportJson := Some True,
      opt_importJson := Some True, opt_yes := Some True, opt_collections := Some [''posts'']\<rparr>))
   \<and> map_option (\<lambda>(r, svc, w). (r, files w ''./backup/posts.json''))
        (copyCollections demo (MongoCopyService (plain_options\<lparr>opt_exportJson := Some True,
           opt_importJson := Some True, opt_yes := Some True,
           opt_collections := Some [''posts'']\<rparr>)) fresh)
       = Some (Returned, Some (bools_stringify [False]))"
  by (simp add: MongoCopyService_def plain_options_def copyCollections_def listCollections_def
      ask_confirm_def open_collection_def
      demo_def no_faults_def says_def fresh_def emit_def try_copy_def closeClients_def
      copyCollection_def docs_of_def copy_loop_run_batches chunks_step batch_step_def sink_def
      exportBatchToJson_def file_path_def append_file_def Let_def)

subsection \<open>Import\<close>

text \<open>
  C7. In import mode (\<open>importJson\<close> set and \<open>exportJson\<close> not), with a batch size \<open>b > 0\<close>,
  a file \<open>{outputDir}/{name}.json\<close> that parses to the documents \<open>json\<close>, and no call that
  raises: streaming a source collection of \<open>n\<close> documents reads \<open>k = \<lceil>n/b\<rceil>\<close> batches, and
  for each of them it reads the whole file again and inserts all of \<open>json\<close>. The destination
  collection ends with \<open>k\<close> copies of \<open>json\<close> after what it held; the batches read from the
  source are inserted nowhere.
\<close>

theorem import_once_per_batch:
  assumes "importJson svc" "\<not> exportJson svc" "0 < batchSize svc" "\<forall>c. \<not> fails env c"
    and "files w (file_path (outputDir svc) name) = Some content"
    and "parse env content = Some json"
  shows "\<exists>w'. copyCollection env svc name w = Some (Inr (), w')
           \<and> length (batches (added w w'))
               = (length (docs_of env name) + nat (batchSize svc) - 1) div nat (batchSize svc)
           \<and> count_list (added w w') (FsRead (file_path (outputDir svc) name))
               = length (batches (added w w'))
           \<and> count_list (added w w') (DbInsertMany name json) = length (batches (added w w'))
           \<and> length (filter store_write (added w w')) = length (batches (added w w'))
           \<and> dest w' = (dest w)(name := dest w name
                                    @ concat (replicate (length (batches (added w w'))) json))
           \<and> files w' = files w"
proof -
  let ?b = "nat (batchSize svc)"
  let ?docs = "docs_of env name"
  let ?fp = "file_path (outputDir svc) name"
  let ?w2 = "emit (DbFind name) (emit (DbCountDocuments name) w)"
  let ?k = "length (chunks ?b ?docs)"
  from assms(3) have b: "0 < ?b" by simp
  have "files ?w2 ?fp = Some content"
    using assms(5) by simp
  from run_batches_import [OF assms(1,2,4) this assms(6), of "length ?docs" "chunks ?b ?docs" 0]
  obtain ext where
    run: "run_batches env svc name (length ?docs) (chunks ?b ?docs) 0 ?w2 =
            (Inr (),
             ?w2\<lparr>dest := (dest ?w2)(name := dest ?w2 name @ concat (replicate ?k json)),
                  trace := trace ?w2 @ ext\<rparr>)"
    and reads: "count_list ext (FsRead ?fp) = ?k"
    and inserts: "count_list ext (DbInsertMany name json) = ?k"
    and writes: "length (filter store_write ext) = ?k"
    by blast
  let ?w3 = "?w2\<lparr>dest := (dest ?w2)(name := dest ?w2 name @ concat (replicate ?k json)),
                   trace := trace ?w2 @ ext\<rparr>"
  let ?w' = "emit (Log Success (Finished name (length ?docs))) ?w3"
  have res: "copyCollection env svc name w = Some (Inr (), ?w')"
    using assms(4) run by (simp add: copyCollection_def Let_def copy_loop_run_batches [OF assms(3)])
  from run_batches_batches [OF run]
  obtain ext' where "trace ?w3 = trace ?w2 @ ext'" and "batches ext' = chunks ?b ?docs"
    by blast
  then have bt: "batches ext = chunks ?b ?docs" by simp
  have ad: "added w ?w' = DbCountDocuments name # DbFind name # ext
                            @ [Log Success (Finished name (length ?docs))]"
    by (simp add: added_def)
  have k: "length (batches (added w ?w')) = ?k"
    by (simp only: ad) (simp add: bt)
  have c1: "count_list (added w ?w') (FsRead ?fp) = ?k"
    using reads by (simp only: ad) simp
  have c2: "count_list (added w ?w') (DbInsertMany name json) = ?k"
    using inserts by (simp only: ad) simp
  have c3: "length (filter store_write (added w ?w')) = ?k"
    using writes by (simp only: ad) simp
  have d: "dest ?w' = (dest w)(name := dest w name @ concat (replicate ?k json))"
    by simp
  have f: "files ?w' = files w"
    by simp
  show ?thesis
  proof (intro exI [of _ ?w'] conjI)
    show "copyCollection env svc name w = Some (Inr (), ?w')"
      by (rule res)
    show "length (batches (added w ?w')) = (length ?docs + ?b - 1) div ?b"
      using k length_chunks [OF b, of ?docs] by (simp only:)
    show "count_list (added w ?w') (FsRead ?fp) = length (batches (added w ?w'))"
      using c1 k by (simp only:)
    show "count_list (added w ?w') (DbInsertMany name json) = length (batches (added w ?w'))"
      using c2 k by (simp only:)
    show "length (filter store_write (added w ?w')) = length (batches (added w ?w'))"
      using c3 k by (simp only:)
    show "dest ?w' = (dest w)(name := dest w name
                                @ concat (replicate (length (batches (added w ?w'))) json))"
      using d k by (simp only:)
    show "files ?w' = files w"
      by (rule f)
  qed
qed

theorem import_once_per_batch_witness:
  "importJson importer \<and> \<not> exportJson importer \<and> 0 < batchSize importer
   \<and> (\<forall>c. \<not> fails five c)
   \<and> files saved (file_path (outputDir importer) ''logs'') = Some (bools_stringify [True, False])
   \<and> parse five (bools_stringify [True, False]) = Some [True, False]
   \<and> length (docs_of five ''logs'') = 5
   \<and> (\<exists>w'. copyCollection five importer ''logs'' saved = Some (Inr (), w')
          \<and> length (batches (added saved w')) = 3
          \<and> count_list (added saved w') (FsRead ''./backup/logs.json'') = 3
          \<and> dest w' ''logs'' = [True, False, True, False, True, False])"
proof -
  have svc: "importJson importer" "\<not> exportJson importer" "0 < batchSize importer"
    "nat (batchSize importer) = 2" "outputDir importer = ''./backup''"
    by (simp_all add: importer_def MongoCopyService_def plain_options_def)
  have quiet: "\<forall>c. \<not> fails five c"
    by (simp add: five_def demo_def no_faults_def)
  have there: "files saved (file_path (outputDir importer) ''logs'') = Some (bools_stringify [True, False])"
    by (simp add: saved_def svc file_path_def)
  have parsed: "parse five (bools_stringify [True, False]) = Some [True, False]"
    by (simp add: five_def demo_def bools_parse_def bools_stringify_def trim_def is_space_def lit_def)
  have n: "length (docs_of five ''logs'') = 5"
    by (simp add: docs_of_def five_def)
  have d0: "dest saved ''logs'' = []"
    by (simp add: saved_def fresh_def)
  from import_once_per_batch [OF svc(1-3) quiet there parsed]
  obtain w' where
    "copyCollection five importer ''logs'' saved = Some (Inr (), w')"
    "length (batches (added saved w')) = (length (docs_of five ''logs'') + 2 - 1) div 2"
    "count_list (added saved w') (FsRead (file_path ''./backup'' ''logs''))
       = length (batches (added saved w'))"
    "dest w' = (dest saved)(''logs'' := dest saved ''logs''
                  @ concat (replicate (length (batches (added saved w'))) [True, False]))"
    unfolding svc by blast
  then have "copyCollection five importer ''logs'' saved = Some (Inr (), w')
          \<and> length (batches (added saved w')) = 3
          \<and> count_list (added saved w') (FsRead ''./backup/logs.json'') = 3
          \<and> dest w' ''logs'' = [True, False, True, False, True, False]"
    by (simp add: n d0 file_path_def numeral_3_eq_3)
  with svc(1-3) quiet there parsed n show ?thesis
    by blast
qed

text \<open>
  C9. The loop is driven by the cursor over the source collection. When the source
  collection holds no document, \<open>copyCollection\<close> counts, opens the cursor and returns: no
  batch is read, no sink is called in any mode (so in import mode the file is neither
  looked up nor read), and nothing is inserted, whatever
  \<open>{outputDir}/{collectionName}.json\<close> contains.
\<close>

theorem empty_source_imports_nothing:
  assumes "docs_of env name = []"
  shows "\<exists>r w'. copyCollection env svc name w = Some (r, w')
           \<and> (\<not> fails env (DbCountDocuments name) \<longrightarrow>
                r = Inr ()
              \<and> added w w' = [DbCountDocuments name, DbFind name, Log Success (Finished name 0)])
           \<and> batches (added w w') = []
           \<and> filter store_write (added w w') = []
           \<and> filter file_call (added w w') = []
           \<and> dest w' = dest w \<and> files w' = files w"
  using assms
  by (simp add: copyCollection_def Let_def copy_loop_Nil added_def emit_def batches_def)

theorem empty_source_imports_nothing_witness:
  "docs_of demo ''tags'' = []
   \<and> importJson (MongoCopyService (plain_options\<lparr>opt_importJson := Some True\<rparr>))
   \<and> map_option (parse demo)
        (files stocked (file_path (outputDir (MongoCopyService (plain_options\<lparr>opt_importJson := Some True\<rparr>))) ''tags''))
       = Some (Some [True, False])
   \<and> (\<exists>w'. copyCollection demo (MongoCopyService (plain_options\<lparr>opt_importJson := Some True\<rparr>))
              ''tags'' stocked = Some (Inr (), w')
          \<and> filter store_write (added stocked w') = []
          \<and> filter file_call (added stocked w') = []
          \<and> dest w' = dest stocked)"
proof -
  let ?svc = "MongoCopyService (plain_options\<lparr>opt_importJson := Some True\<rparr>)"
  have h: "docs_of demo ''tags'' = []"
    by (simp add: docs_of_def demo_def)
  have ok: "\<not> fails demo (DbCountDocuments ''tags'')"
    by (simp add: demo_def no_faults_def)
  have content: "map_option (parse demo) (files stocked (file_path (outputDir ?svc) ''tags''))
                = Some (Some [True, False])"
    by (simp add: demo_def stocked_def file_path_def MongoCopyService_def plain_options_def
        bools_parse_def bools_stringify_def trim_def is_space_def lit_def)
  have imp: "importJson ?svc"
    by (simp add: MongoCopyService_def plain_options_def)
  from empty_source_imports_nothing [OF h, of ?svc stocked] ok
  have "\<exists>w'. copyCollection demo ?svc ''tags'' stocked = Some (Inr (), w')
          \<and> filter store_write (added stocked w') = []
          \<and> filter file_call (added stocked w') = []
          \<and> dest w' = dest stocked"
    by blast
  with h imp content show ?thesis by blast
qed

subsection \<open>Export\<close>

text \<open>
  C8, as amended. In export mode with a batch size \<open>b > 0\<close>, no call that raises, and no
  file \<open>{outputDir}/{name}.json\<close> before the run, streaming a collection of \<open>n\<close> documents
  writes nothing to the destination store and appends the printed form of each batch to
  that one file, in order. With \<open>n = 0\<close> nothing is appended and no file is written. With
  \<open>1 \<le> n \<le> b\<close> there is exactly one append: the file holds the printed array of the
  documents, and it parses back to them. With \<open>n > b\<close> there are at least two batches, the
  file holds their printed arrays one after the other, and it does not parse. The
  parsing facts are for a JSON codec as \<open>json_codec\<close> describes it.
\<close>

theorem export_file_contents:
  assumes "exportJson svc" "0 < batchSize svc" "\<forall>c. \<not> fails env c" "json_codec env"
    and "files w (file_path (outputDir svc) name) = None"
  shows "\<exists>w'. copyCollection env svc name w = Some (Inr (), w')
           \<and> dest w' = dest w
           \<and> filter store_write (added w w') = []
           \<and> appends (added w w')
               = map (\<lambda>batch. (file_path (outputDir svc) name, stringify env batch))
                   (batches (added w w'))
           \<and> (docs_of env name = [] \<longrightarrow> files w' = files w \<and> appends (added w w') = [])
           \<and> (docs_of env name \<noteq> [] \<and> length (docs_of env name) \<le> nat (batchSize svc) \<longrightarrow>
                appends (added w w')
                  = [(file_path (outputDir svc) name, stringify env (docs_of env name))]
              \<and> files w' = (files w)(file_path (outputDir svc) name
                                       \<mapsto> stringify env (docs_of env name))
              \<and> map_option (parse env) (files w' (file_path (outputDir svc) name))
                  = Some (Some (docs_of env name)))
           \<and> (nat (batchSize svc) < length (docs_of env name) \<longrightarrow>
                2 \<le> length (batches (added w w'))
              \<and> files w' = (files w)(file_path (outputDir svc) name
                                       \<mapsto> concat (map (stringify env) (batches (added w w'))))
              \<and> map_option (parse env) (files w' (file_path (outputDir svc) name)) = Some None)"
proof -
  let ?b = "nat (batchSize svc)"
  let ?docs = "docs_of env name"
  let ?fp = "file_path (outputDir svc) name"
  let ?bs = "chunks ?b ?docs"
  let ?w2 = "emit (DbFind name) (emit (DbCountDocuments name) w)"
  from assms(2) have b: "0 < ?b" by simp
  from assms(4) have roundtrip: "\<And>ds. parse env (stringify env ds) = Some ds"
    and reject: "\<And>x y rest. parse env (stringify env x @ stringify env y @ rest) = None"
    by (simp_all add: json_codec_def)
  from run_batches_export [OF assms(1,3), of name "length ?docs" ?bs 0 ?w2]
  obtain ext where
    run: "run_batches env svc name (length ?docs) ?bs 0 ?w2 =
            (Inr (),
             ?w2\<lparr>files := foldl (\<lambda>fs t. append_file ?fp t fs) (files ?w2) (map (stringify env) ?bs),
                  dirs := (if ?bs = [] then dirs ?w2 else insert (outputDir svc) (dirs ?w2)),
                  trace := trace ?w2 @ ext\<rparr>)"
    and app: "appends ext = map (\<lambda>batch. (?fp, stringify env batch)) ?bs"
    and quiet: "filter store_write ext = []"
    by blast
  let ?w3 = "?w2\<lparr>files := foldl (\<lambda>fs t. append_file ?fp t fs) (files ?w2) (map (stringify env) ?bs),
                   dirs := (if ?bs = [] then dirs ?w2 else insert (outputDir svc) (dirs ?w2)),
                   trace := trace ?w2 @ ext\<rparr>"
  let ?w' = "emit (Log Success (Finished name (length ?docs))) ?w3"
  have res: "copyCollection env svc name w = Some (Inr (), ?w')"
    using assms(3) run by (simp add: copyCollection_def Let_def copy_loop_run_batches [OF assms(2)])
  from run_batches_batches [OF run]
  obtain ext' where "trace ?w3 = trace ?w2 @ ext'" and "batches ext' = ?bs"
    by blast
  then have bt: "batches ext = ?bs" by simp
  have ad: "added w ?w' = DbCountDocuments name # DbFind name # ext
                            @ [Log Success (Finished name (length ?docs))]"
    by (simp add: added_def)
  have k: "batches (added w ?w') = ?bs"
    by (simp only: ad) (simp add: bt)
  have a: "appends (added w ?w') = map (\<lambda>batch. (?fp, stringify env batch)) ?bs"
    by (simp only: ad) (simp add: app)
  have q: "filter store_write (added w ?w') = []"
    by (simp only: ad) (simp add: quiet)
  have f: "files ?w' = (if ?bs = [] then files w
                        else (files w)(?fp \<mapsto> concat (map (stringify env) ?bs)))"
    using foldl_append_file_new [of "files w" ?fp "map (stringify env) ?bs"] assms(5) by simp
  have d: "dest ?w' = dest w"
    by simp
  have none: "files ?w' = files w \<and> appends (added w ?w') = []" if "?docs = []"
    using that f a by simp
  have one: "appends (added w ?w') = [(?fp, stringify env ?docs)]
             \<and> files ?w' = (files w)(?fp \<mapsto> stringify env ?docs)
             \<and> map_option (parse env) (files ?w' ?fp) = Some (Some ?docs)"
    if "?docs \<noteq> []" "length ?docs \<le> ?b"
  proof -
    from b that have "?bs = [?docs]" by (rule chunks_single)
    with f a roundtrip show ?thesis by simp
  qed
  have many: "2 \<le> length (batches (added w ?w'))
              \<and> files ?w' = (files w)(?fp \<mapsto> concat (map (stringify env) (batches (added w ?w'))))
              \<and> map_option (parse env) (files ?w' ?fp) = Some None"
    if "?b < length ?docs"
  proof -
    from chunks_two [OF b that] obtain c cs where two: "?bs = take ?b ?docs # c # cs" by blast
    have "concat (map (stringify env) ?bs)
            = stringify env (take ?b ?docs) @ stringify env c @ concat (map (stringify env) cs)"
      by (simp add: two)
    then have "parse env (concat (map (stringify env) ?bs)) = None"
      by (simp only: reject)
    moreover have "?bs \<noteq> []" "2 \<le> length ?bs"
      by (simp_all add: two)
    ultimately show ?thesis
      unfolding k using f by simp
  qed
  show ?thesis
  proof (intro exI [of _ ?w'] conjI impI)
    show "copyCollection env svc name w = Some (Inr (), ?w')" by (rule res)
    show "dest ?w' = dest w" by (rule d)
    show "filter store_write (added w ?w') = []" by (rule q)
    show "appends (added w ?w')
            = map (\<lambda>batch. (?fp, stringify env batch)) (batches (added w ?w'))"
      using a by (simp only: k)
    show "files ?w' = files w" if "?docs = []"
      using none [OF that] by (rule conjunct1)
    show "appends (added w ?w') = []" if "?docs = []"
      using none [OF that] by (rule conjunct2)
    show "appends (added w ?w') = [(?fp, stringify env ?docs)]"
      if "?docs \<noteq> [] \<and> length ?docs \<le> ?b"
      using one that by blast
    show "files ?w' = (files w)(?fp \<mapsto> stringify env ?docs)"
      if "?docs \<noteq> [] \<and> length ?docs \<le> ?b"
      using one that by blast
    show "map_option (parse env) (files ?w' ?fp) = Some (Some ?docs)"
      if "?docs \<noteq> [] \<and> length ?docs \<le> ?b"
      using one that by blast
    show "2 \<le> length (batches (added w ?w'))" if "?b < length ?docs"
      using many [OF that] by blast
    show "files ?w' = (files w)(?fp \<mapsto> concat (map (stringify env) (batches (added w ?w'))))"
      if "?b < length ?docs"
      using many [OF that] by blast
    show "map_option (parse env) (files ?w' ?fp) = Some None" if "?b < length ?docs"
      using many [OF that] by blast
  qed
qed

theorem export_file_contents_witness:
  "exportJson exporter \<and> 0 < batchSize exporter
   \<and> (\<forall>c. \<not> fails demo c) \<and> json_codec demo
   \<and> files (fresh :: bool world) (file_path (outputDir exporter) ''posts'') = None
   \<and> docs_of demo ''posts'' = [False]
   \<and> (\<exists>w'. copyCollection demo exporter ''posts'' fresh = Some (Inr (), w')
          \<and> appends (added fresh w') = [(''./backup/posts.json'', bools_stringify [False])]
          \<and> files w' = (files (fresh :: bool world))(''./backup/posts.json'' \<mapsto> bools_stringify [False])
          \<and> map_option (parse demo) (files w' ''./backup/posts.json'') = Some (Some [False]))
   \<and> (\<forall>c. \<not> fails five c) \<and> json_codec five
   \<and> files (fresh :: bool world) (file_path (outputDir exporter) ''logs'') = None
   \<and> length (docs_of five ''logs'') = 5
   \<and> (\<exists>w'. copyCollection five exporter ''logs'' fresh = Some (Inr (), w')
          \<and> 2 \<le> length (batches (added fresh w'))
          \<and> map_option (parse five) (files w' ''./backup/logs.json'') = Some None)"
proof -
  have svc: "exportJson exporter" "0 < batchSize exporter"
    "nat (batchSize exporter) = 2" "outputDir exporter = ''./backup''"
    by (simp_all add: exporter_def MongoCopyService_def plain_options_def)
  have quiet: "\<forall>c. \<not> fails demo c" "\<forall>c. \<not> fails five c"
    by (simp_all add: five_def demo_def no_faults_def)
  have codec: "json_codec demo" "json_codec five"
    by (rule bools_codec; simp add: five_def demo_def)+
  have new: "files (fresh :: bool world) (file_path (outputDir exporter) n) = None" for n
    by (simp add: fresh_def)
  have posts: "docs_of demo ''posts'' = [False]"
    by (simp add: docs_of_def demo_def)
  have logs: "length (docs_of five ''logs'') = 5"
    by (simp add: docs_of_def five_def)
  have rt: "parse demo (bools_stringify ds) = Some ds" for ds
    by (simp add: demo_def bools_roundtrip)
  have str: "stringify demo = bools_stringify" "stringify five = bools_stringify"
    by (simp_all add: five_def demo_def)
  have p1: "file_path (outputDir exporter) ''posts'' = ''./backup/posts.json''"
    and p2: "file_path (outputDir exporter) ''logs'' = ''./backup/logs.json''"
    by (simp_all add: svc file_path_def)
  have small: "docs_of demo ''posts'' \<noteq> []
                 \<and> length (docs_of demo ''posts'') \<le> nat (batchSize exporter)"
    by (simp add: posts svc)
  have large: "nat (batchSize exporter) < length (docs_of five ''logs'')"
    by (simp add: logs svc)
  have one: "\<exists>w'. copyCollection demo exporter ''posts'' fresh = Some (Inr (), w')
          \<and> appends (added fresh w') = [(''./backup/posts.json'', bools_stringify [False])]
          \<and> files w' = (files (fresh :: bool world))(''./backup/posts.json'' \<mapsto> bools_stringify [False])
          \<and> map_option (parse demo) (files w' ''./backup/posts.json'') = Some (Some [False])"
    using export_file_contents [OF svc(1,2) quiet(1) codec(1) new, of "''posts''"]
  proof (elim exE conjE)
    fix w'
    assume r: "copyCollection demo exporter ''posts'' fresh = Some (Inr (), w')"
      and s: "docs_of demo ''posts'' \<noteq> []
                \<and> length (docs_of demo ''posts'') \<le> nat (batchSize exporter) \<longrightarrow>
              appends (added fresh w')
                = [(file_path (outputDir exporter) ''posts'', stringify demo (docs_of demo ''posts''))]
            \<and> files w' = (files (fresh :: bool world))(file_path (outputDir exporter) ''posts''
                                        \<mapsto> stringify demo (docs_of demo ''posts''))
            \<and> map_option (parse demo) (files w' (file_path (outputDir exporter) ''posts''))
                = Some (Some (docs_of demo ''posts''))"
    from s [rule_format, OF small]
    have "appends (added fresh w') = [(''./backup/posts.json'', bools_stringify [False])]
        \<and> files w' = (files (fresh :: bool world))(''./backup/posts.json'' \<mapsto> bools_stringify [False])
        \<and> map_option (parse demo) (files w' ''./backup/posts.json'') = Some (Some [False])"
      by (simp add: p1 posts str rt)
    with r show ?thesis by (intro exI [of _ w'] conjI) (simp_all add: rt)
  qed
  have many: "\<exists>w'. copyCollection five exporter ''logs'' fresh = Some (Inr (), w')
          \<and> 2 \<le> length (batches (added fresh w'))
          \<and> map_option (parse five) (files w' ''./backup/logs.json'') = Some None"
    using export_file_contents [OF svc(1,2) quiet(2) codec(2) new, of "''logs''"]
  proof (elim exE conjE)
    fix w'
    assume r: "copyCollection five exporter ''logs'' fresh = Some (Inr (), w')"
      and s: "nat (batchSize exporter) < length (docs_of five ''logs'') \<longrightarrow>
              2 \<le> length (batches (added fresh w'))
            \<and> files w' = (files (fresh :: bool world))(file_path (outputDir exporter) ''logs''
                  \<mapsto> concat (map (stringify five) (batches (added fresh w'))))
            \<and> map_option (parse five) (files w' (file_path (outputDir exporter) ''logs'')) = Some None"
    from s [rule_format, OF large]
    have "2 \<le> length (batches (added fresh w'))"
      and "map_option (parse five) (files w' ''./backup/logs.json'') = Some None"
      unfolding p2 by (rule conjunct1, rule conjunct2 [THEN conjunct2])
    with r show ?thesis by (intro exI [of _ w'] conjI)
  qed
  show ?thesis
    by (intro conjI) (rule svc quiet codec new posts logs one many)+
qed

text \<open>
  Two collections that fit in one batch and do not end as one parseable file: \<open>tags\<close> is
  empty, and no file is written for it; \<open>posts\<close> was exported before, and the second
  export is appended to the first, which leaves a file that does not parse.
\<close>

theorem export_without_one_parseable_file:
  "length (docs_of demo ''tags'') \<le> nat (batchSize exporter)
   \<and> map_option (\<lambda>(r, w). (r, files w ''./backup/tags.json'', appends (trace w)))
        (copyCollection demo exporter ''tags'' fresh) = Some (Inr (), None, [])
   \<and> length (docs_of demo ''posts'') \<le> nat (batchSize exporter)
   \<and> map_option (\<lambda>(r, w). (r, map_option (parse demo) (files w ''./backup/posts.json'')))
        (copyCollection demo exporter ''posts'' exported_before) = Some (Inr (), Some None)"
  by (simp add: exporter_def exported_before_def emit_def appends_def exportBatchToJson_def
      file_path_def append_file_def bools_parse_def bools_stringify_def trim_def is_space_def
      lit_def run_defs)

subsection \<open>The batch size\<close>

text \<open>
  C10, as amended. The constructor replaces a falsy \<open>batchSize\<close> option (absent, \<open>NaN\<close>
  or 0) by 1000 and rejects nothing; every other value is kept as it is. A service built
  from a falsy or a positive option therefore has a positive batch size, each turn of its
  batch loop reads at least one document, and streaming a collection returns.
\<close>

theorem batchSize_default:
  "(falsy (opt_batchSize opts) \<longrightarrow> batchSize (MongoCopyService opts) = 1000)
   \<and> (\<not> falsy (opt_batchSize opts) \<longrightarrow>
        opt_batchSize opts = Num (batchSize (MongoCopyService opts)))
   \<and> (falsy (opt_batchSize opts) \<or> 0 < num_of (opt_batchSize opts) \<longrightarrow>
        0 < batchSize (MongoCopyService opts)
      \<and> (\<forall>cursor. cursor \<noteq> [] \<longrightarrow>
            fst (read_batch 0 (batchSize (MongoCopyService opts)) cursor []) \<noteq> []
          \<and> length (snd (read_batch 0 (batchSize (MongoCopyService opts)) cursor []))
              < length cursor)
      \<and> (\<forall>env name w. \<exists>r. copyCollection env (MongoCopyService opts) name w = Some r))"
proof -
  have pos: "0 < batchSize (MongoCopyService opts)"
    if "falsy (opt_batchSize opts) \<or> 0 < num_of (opt_batchSize opts)"
    using that by (cases "opt_batchSize opts") (auto simp: MongoCopyService_def)
  have a: "falsy (opt_batchSize opts) \<longrightarrow> batchSize (MongoCopyService opts) = 1000"
    by (cases "opt_batchSize opts") (auto simp: MongoCopyService_def)
  have b: "\<not> falsy (opt_batchSize opts) \<longrightarrow>
        opt_batchSize opts = Num (batchSize (MongoCopyService opts))"
    by (cases "opt_batchSize opts") (auto simp: MongoCopyService_def)
  show ?thesis
    using a b pos copyCollection_returns [of "MongoCopyService opts"]
    by (auto simp: read_batch_take_drop)
qed

theorem batchSize_default_witness:
  "falsy (opt_batchSize (plain_options\<lparr>opt_batchSize := Num 0\<rparr>))
   \<and> batchSize (MongoCopyService (plain_options\<lparr>opt_batchSize := Num 0\<rparr>)) = 1000
   \<and> (\<exists>r. copyCollection demo (MongoCopyService (plain_options\<lparr>opt_batchSize := Num 0\<rparr>))
              ''users'' fresh = Some r)"
proof -
  let ?o = "plain_options\<lparr>opt_batchSize := Num 0\<rparr>"
  have f: "falsy (opt_batchSize ?o)"
    by (simp add: plain_options_def)
  from batchSize_default [of ?o] f
  have "batchSize (MongoCopyService ?o) = 1000"
    and "\<forall>(env :: bool env) name w. \<exists>r. copyCollection env (MongoCopyService ?o) name w = Some r"
    by blast+
  with f show ?thesis by blast
qed

text \<open>
  A negative option is truthy, so it is kept: the service's batch size is not positive,
  and a turn of the loop reads nothing and leaves the cursor where it was. In export mode
  the loop over \<open>users\<close> then never ends.
\<close>

theorem negative_batchSize_kept:
  "batchSize (MongoCopyService (plain_options\<lparr>opt_batchSize := Num (- 1)\<rparr>)) = - 1
   \<and> read_batch 0 (- 1) [True, False] [] = ([], [True, False])
   \<and> copyCollection demo
         (MongoCopyService (plain_options\<lparr>opt_batchSize := Num (- 1), opt_exportJson := Some True\<rparr>))
         ''users'' fresh = None"
proof -
  let ?svc = "MongoCopyService (plain_options\<lparr>opt_batchSize := Num (- 1), opt_exportJson := Some True\<rparr>)"
  have svc: "batchSize ?svc \<le> 0" "exportJson ?svc"
    by (simp_all add: MongoCopyService_def plain_options_def)
  have quiet: "\<forall>c. \<not> fails demo c"
    by (simp add: demo_def no_faults_def)
  have docs: "docs_of demo ''users'' \<noteq> []"
    by (simp add: docs_of_def demo_def)
  have "copy_loop demo ?svc ''users'' tot (docs_of demo ''users'') 0 w = None" for tot and w :: "bool world"
    using svc quiet docs by (rule export_never_returns)
  then have "copyCollection demo ?svc ''users'' fresh = None"
    using quiet by (simp add: copyCollection_def Let_def)
  then show ?thesis
    by (simp add: MongoCopyService_def plain_options_def read_batch_take_drop)
qed

end
